theory Spec2Isabelle
  imports Main "HOL-Library.Word" "HOL-Library.Sublist"
begin

section \<open>Common vocabulary\<close>

text \<open>
  The library is written in C++.  Three ways in which a call can fail to return are
  made explicit: a failed \<^verbatim>\<open>assert\<close> (debug builds only), an exception that leaves a
  \<^verbatim>\<open>noexcept\<close> function (\<^verbatim>\<open>std::terminate\<close>) and the use of a moved-from
  \<^verbatim>\<open>unique_ptr\<close>.  Every function that contains an \<^verbatim>\<open>assert\<close> takes the build
  flag \<open>NDEBUG\<close>: \<open>True\<close> is a release build, in which assertions are compiled out.
\<close>

datatype error = AssertionFailed | Terminated | NullDereference

text \<open>
  Condition variables are the only channel through which threads wake each other.
  \<open>waitVariable\<close> is the worker's own (\<^verbatim>\<open>SyncedWorker::waitVariable\<close>),
  \<open>Impl_variable\<close> is \<^verbatim>\<open>TaskQueue::Scheduler::Impl::variable\<close> (workers parked
  inside \<^verbatim>\<open>startScheduledWork\<close>), \<open>Base_variable\<close> is
  \<^verbatim>\<open>TaskSchedulerBase::variable\<close> (threads parked in \<^verbatim>\<open>wait()\<close>).
  A function's notifications are returned as a list, in program order.
\<close>

datatype condition_variable = waitVariable | Impl_variable | Base_variable

datatype effect = notify_all condition_variable | notify_one condition_variable


section \<open>Worker.cpp: the worker state machine\<close>

datatype State = TERMINATE | WAIT | WORK

record SyncedWorker =
  currentState :: State
  requestedState :: State

definition SyncedWorker_init :: SyncedWorker where
  "SyncedWorker_init = \<lparr>currentState = WAIT, requestedState = WORK\<rparr>"

text \<open>
  \<^verbatim>\<open>SyncedWorker::requestState\<close>.  The asserted expression is
  \<^verbatim>\<open>requestedState == TERMINATE || state != TERMINATE && "..."\<close>; \<^verbatim>\<open>&&\<close> binds tighter
  than \<^verbatim>\<open>||\<close> and the string literal is a non-null pointer, so the condition is
  \<open>requestedState = TERMINATE \<or> state \<noteq> TERMINATE\<close>.
\<close>

definition requestState :: "bool \<Rightarrow> State \<Rightarrow> SyncedWorker \<Rightarrow> error + (SyncedWorker \<times> effect list)" where
  "requestState NDEBUG state w =
     (if \<not> NDEBUG \<and> \<not> (requestedState w = TERMINATE \<or> state \<noteq> TERMINATE) then Inl AssertionFailed
      else
        let notifyWait = (requestedState w \<noteq> state \<and> requestedState w = WAIT);
            w' = (if requestedState w \<noteq> state then w\<lparr>requestedState := state\<rparr> else w)
        in Inr (w', if notifyWait then [notify_all waitVariable] else []))"

definition getState :: "SyncedWorker \<Rightarrow> State" where
  "getState w = currentState w"

definition getRequestedState :: "SyncedWorker \<Rightarrow> State" where
  "getRequestedState w = requestedState w"

text \<open>
  The lambda that \<^verbatim>\<open>runLoop\<close> hands to \<^verbatim>\<open>startScheduledWork\<close>.  It captures the
  worker by reference, so it reads the worker record as it is when the scheduler
  evaluates it; its parameter is unnamed in the source.
\<close>

definition runLoop_predicate :: "SyncedWorker \<Rightarrow> bool \<Rightarrow> bool" where
  "runLoop_predicate w workAvailable = (requestedState w = WORK)"

text \<open>
  \<^verbatim>\<open>SyncedWorker::runLoop\<close>, cut at the points where the worker thread gives up its
  own lock.  A segment starts either at the top of the outer loop (\<open>Top\<close>: on entry
  and when \<^verbatim>\<open>startScheduledWork\<close> has returned) or inside the inner loop after
  \<^verbatim>\<open>waitVariable.wait\<close> has returned (\<open>Woken\<close>).  It ends by returning from
  \<^verbatim>\<open>runLoop\<close>, by blocking on \<open>waitVariable\<close>, or by calling
  \<^verbatim>\<open>startScheduledWork\<close> with \<open>runLoop_predicate\<close>.  \<open>isCompleted\<close> is what
  \<^verbatim>\<open>scheduler->isCompleted()\<close> answers; each segment asks at most once.
  \<^verbatim>\<open>AsyncWorker\<close> derives from \<^verbatim>\<open>SyncedWorker\<close> and its \<^verbatim>\<open>start\<close> runs
  \<^verbatim>\<open>SyncedWorker::start\<close> on a thread of its own, so both kinds run this loop.
\<close>

datatype loop_point = Top | Woken

datatype loop_action = Return | Block_waitVariable | Call_startScheduledWork

definition runLoop_inner :: "bool \<Rightarrow> SyncedWorker \<Rightarrow> SyncedWorker \<times> loop_action" where
  "runLoop_inner isCompleted w =
     (if requestedState w = WAIT then
        (if isCompleted then (w, Return) else (w, Block_waitVariable))
      else if requestedState w = WORK then
        (if isCompleted then (w, Return) else (w, Call_startScheduledWork))
      else (w\<lparr>currentState := requestedState w\<rparr>, Return))"

definition runLoop :: "loop_point \<Rightarrow> bool \<Rightarrow> SyncedWorker \<Rightarrow> SyncedWorker \<times> loop_action" where
  "runLoop pt isCompleted w =
     (case pt of
        Woken \<Rightarrow> runLoop_inner isCompleted w
      | Top \<Rightarrow>
          let w1 = w\<lparr>currentState := requestedState w\<rparr> in
          if requestedState w1 = TERMINATE then (w1, Return)
          else runLoop_inner isCompleted w1)"

text \<open>\<^verbatim>\<open>SyncedWorker::start\<close> after \<^verbatim>\<open>runLoop\<close> has returned.\<close>

definition start_finish :: "SyncedWorker \<Rightarrow> SyncedWorker \<times> effect list" where
  "start_finish w = (w\<lparr>currentState := TERMINATE\<rparr>, [notify_all waitVariable])"


section \<open>Task.hpp: outcomes, promises, packaged tasks\<close>

text \<open>
  What a callable can raise: the library's \<^verbatim>\<open>TaskCancellation\<close>, the
  \<^verbatim>\<open>std::future_error\<close> that \<^verbatim>\<open>std::promise::set_value\<close> raises on a promise that
  is already satisfied or has no shared state, or anything else.
\<close>

datatype 'e thrown = TaskCancellation | future_error | other 'e

text \<open>\<^verbatim>\<open>TypedTaskResult<R>\<close>: \<^verbatim>\<open>std::variant<R, TaskCancellation, std::exception_ptr>\<close>.\<close>

datatype ('r, 'e) TypedTaskResult = ReturnValue 'r | Cancellation | Exception "'e thrown"

definition success :: "('r, 'e) TypedTaskResult \<Rightarrow> bool" where
  "success res = (case res of ReturnValue _ \<Rightarrow> True | _ \<Rightarrow> False)"

definition getReturnValue :: "('r, 'e) TypedTaskResult \<Rightarrow> 'r option" where
  "getReturnValue res = (case res of ReturnValue v \<Rightarrow> Some v | _ \<Rightarrow> None)"

definition getCancellation :: "('r, 'e) TypedTaskResult \<Rightarrow> unit option" where
  "getCancellation res = (case res of Cancellation \<Rightarrow> Some () | _ \<Rightarrow> None)"

definition getException :: "('r, 'e) TypedTaskResult \<Rightarrow> 'e thrown option" where
  "getException res = (case res of Exception x \<Rightarrow> Some x | _ \<Rightarrow> None)"

text \<open>
  A promise and the futures obtained from it share one slot that outlives the task.
  The slots live in a store, a promise or a future is the index of its slot, and a
  slot holds \<open>None\<close> until the outcome is published.  An index outside the store is a
  promise without shared state.
\<close>

type_synonym ('r, 'e) shared_states = "('r, 'e) TypedTaskResult option list"

definition set_value :: "nat \<Rightarrow> ('r, 'e) TypedTaskResult \<Rightarrow> ('r, 'e) shared_states \<Rightarrow> 'e thrown + ('r, 'e) shared_states" where
  "set_value p v st =
     (if p < length st \<and> st ! p = None then Inr (st[p := Some v]) else Inl future_error)"

text \<open>
  \<^verbatim>\<open>TypedFutureTaskResult::getResult\<close> blocks until the slot is filled; \<open>None\<close> stands
  for a caller that is still blocked.
\<close>

definition getResult :: "nat \<Rightarrow> ('r, 'e) shared_states \<Rightarrow> ('r, 'e) TypedTaskResult option" where
  "getResult f st = (if f < length st then st ! f else None)"

text \<open>What invoking the callable on the captured arguments does.\<close>

datatype ('r, 'e) invocation = returns 'r | throws "'e thrown"

text \<open>
  \<^verbatim>\<open>PackagedTask<R, Args...>\<close>.  \<open>args\<close> is what \<^verbatim>\<open>std::apply\<close> hands to the
  callable when the task is launched.  \<^verbatim>\<open>Task::create\<close> deduces \<^verbatim>\<open>Args\<close> from
  forwarding references, so the tuple holds a copy of an argument passed as an rvalue
  and a reference to an argument passed as an lvalue; for the latter \<open>args\<close> is the
  value of the referent at launch, which need not be its value at submission.
  Nothing below relates the published outcome to the value at submission.
\<close>

record ('a, 'r, 'e) PackagedTask =
  promise :: nat
  "function" :: "'a \<Rightarrow> ('r, 'e) invocation"
  args :: 'a
  started :: bool
  ended :: bool

text \<open>
  \<^verbatim>\<open>PackagedTask::cancel\<close> is \<^verbatim>\<open>noexcept\<close>: a \<^verbatim>\<open>set_value\<close> that raises ends the
  program.
\<close>

definition cancel :: "('a, 'r, 'e) PackagedTask \<Rightarrow> ('r, 'e) shared_states \<Rightarrow> error + (('a, 'r, 'e) PackagedTask \<times> ('r, 'e) shared_states)" where
  "cancel t st =
     (if \<not> started t then
        (case set_value (promise t) Cancellation st of
           Inl _ \<Rightarrow> Inl Terminated
         | Inr st' \<Rightarrow> Inr (t\<lparr>started := True\<rparr>, st'))
      else Inr (t, st))"

definition assertInactive :: "('a, 'r, 'e) PackagedTask \<Rightarrow> bool" where
  "assertInactive t = (started t = ended t)"

text \<open>
  \<^verbatim>\<open>PackagedTask::launch\<close>.  The \<^verbatim>\<open>try\<close> block sets \<open>started\<close>, invokes the
  callable and publishes its value; either step may raise.  The first handler takes
  \<^verbatim>\<open>TaskCancellation\<close>, the second everything else; a handler whose own
  \<^verbatim>\<open>set_value\<close> raises lets the exception leave a \<^verbatim>\<open>noexcept\<close> function.  The
  \<open>ended\<close> flag exists in debug builds only.
\<close>

definition launch :: "bool \<Rightarrow> ('a, 'r, 'e) PackagedTask \<Rightarrow> ('r, 'e) shared_states \<Rightarrow> error + (('a, 'r, 'e) PackagedTask \<times> ('r, 'e) shared_states)" where
  "launch NDEBUG t st =
     (if \<not> NDEBUG \<and> started t then Inl AssertionFailed
      else
        let t1 = t\<lparr>started := True\<rparr>;
            try = (case function t (args t) of
                     returns v \<Rightarrow> set_value (promise t) (ReturnValue v) st
                   | throws x \<Rightarrow> Inl x);
            handled = (case try of
                         Inr st' \<Rightarrow> Inr st'
                       | Inl TaskCancellation \<Rightarrow> set_value (promise t) Cancellation st
                       | Inl x \<Rightarrow> set_value (promise t) (Exception x) st)
        in case handled of
             Inl _ \<Rightarrow> Inl Terminated
           | Inr st' \<Rightarrow> Inr (t1\<lparr>ended := (if NDEBUG then ended t1 else True)\<rparr>, st'))"

text \<open>
  \<^verbatim>\<open>Task\<close> owns its packaged task through a \<^verbatim>\<open>unique_ptr\<close>; \<open>None\<close> is a
  moved-from task.
\<close>

type_synonym ('a, 'r, 'e) Task = "('a, 'r, 'e) PackagedTask option"

text \<open>
  \<^verbatim>\<open>Task::create\<close>: the task, its future, and the store with the new slot.  The
  parameter \<open>a\<close> is what the tuple of arguments yields at launch (see \<open>args\<close>
  above), not necessarily what the caller's variables held when the task was made.
\<close>

definition create :: "('a \<Rightarrow> ('r, 'e) invocation) \<Rightarrow> 'a \<Rightarrow> ('r, 'e) shared_states \<Rightarrow> ('a, 'r, 'e) Task \<times> nat \<times> ('r, 'e) shared_states" where
  "create functor a st =
     (Some \<lparr>promise = length st, function = functor, args = a, started = False, ended = False\<rparr>,
      length st, st @ [None])"

text \<open>\<^verbatim>\<open>Task::operator()\<close>.\<close>

definition Task_call :: "bool \<Rightarrow> ('a, 'r, 'e) Task \<Rightarrow> ('r, 'e) shared_states \<Rightarrow> error + (('a, 'r, 'e) Task \<times> ('r, 'e) shared_states)" where
  "Task_call NDEBUG task st =
     (case task of
        None \<Rightarrow> Inl (if NDEBUG then NullDereference else AssertionFailed)
      | Some t \<Rightarrow> (case launch NDEBUG t st of
                    Inl e \<Rightarrow> Inl e
                  | Inr (t', st') \<Rightarrow> Inr (Some t', st')))"

text \<open>\<^verbatim>\<open>Task::~Task\<close>: the packaged task is deleted, the store stays.\<close>

definition Task_destructor :: "bool \<Rightarrow> ('a, 'r, 'e) Task \<Rightarrow> ('r, 'e) shared_states \<Rightarrow> error + ('r, 'e) shared_states" where
  "Task_destructor NDEBUG task st =
     (case task of
        None \<Rightarrow> Inr st
      | Some t \<Rightarrow>
          if \<not> NDEBUG \<and> \<not> assertInactive t then Inl AssertionFailed
          else (case cancel t st of
                  Inl e \<Rightarrow> Inl e
                | Inr (t', st') \<Rightarrow> Inr st'))"

text \<open>
  What holds of every packaged task from its construction on: its promise has a slot,
  the slot is filled only after \<open>started\<close> is set, and \<open>ended\<close> is set only after
  \<open>started\<close>.
\<close>

definition task_valid :: "('a, 'r, 'e) PackagedTask \<Rightarrow> ('r, 'e) shared_states \<Rightarrow> bool" where
  "task_valid t st =
     (promise t < length st \<and> (st ! promise t \<noteq> None \<longrightarrow> started t) \<and> (ended t \<longrightarrow> started t))"

text \<open>The outcome that the handlers of \<^verbatim>\<open>launch\<close> select for an invocation.\<close>

definition outcome_of :: "('r, 'e) invocation \<Rightarrow> ('r, 'e) TypedTaskResult" where
  "outcome_of i =
     (case i of
        returns v \<Rightarrow> ReturnValue v
      | throws TaskCancellation \<Rightarrow> Cancellation
      | throws x \<Rightarrow> Exception x)"


section \<open>TaskScheduler.hpp, TaskScheduler.cpp: the queue scheduler\<close>

text \<open>
  \<^verbatim>\<open>TaskQueue::Scheduler\<close>: the \<open>completed\<close> flag of \<^verbatim>\<open>TaskSchedulerBase\<close> and the
  fields of \<^verbatim>\<open>Impl\<close>.  \<open>working\<close> is a C++ \<^verbatim>\<open>unsigned\<close>.  All functions below run
  with the scheduler's mutex held.
\<close>

record ('a, 'r, 'e) Scheduler =
  completed :: bool
  queue :: "('a, 'r, 'e) Task list"
  queueActive :: bool
  working :: "32 word"

definition Scheduler_init :: "('a, 'r, 'e) Scheduler" where
  "Scheduler_init = \<lparr>completed = False, queue = [], queueActive = True, working = 0\<rparr>"

definition setCompleted :: "('a, 'r, 'e) Scheduler \<Rightarrow> ('a, 'r, 'e) Scheduler \<times> effect list" where
  "setCompleted s = (s\<lparr>completed := True\<rparr>, [notify_all Base_variable])"

definition isCompleted :: "('a, 'r, 'e) Scheduler \<Rightarrow> bool" where
  "isCompleted s = completed s"

definition checkWaitingPredicates :: "effect list" where
  "checkWaitingPredicates = [notify_all Impl_variable]"

definition checkCompleted :: "('a, 'r, 'e) Scheduler \<Rightarrow> ('a, 'r, 'e) Scheduler \<times> effect list" where
  "checkCompleted s =
     (if working s = 0 \<and> queue s = [] \<and> \<not> queueActive s then
        (let (s', fx) = setCompleted s in (s', fx @ checkWaitingPredicates))
      else (s, []))"

text \<open>
  \<^verbatim>\<open>TaskQueue::addTask(Task)\<close>.  The parameter is taken by value: when the queue is
  closed it is destroyed, still owning its packaged task, as the function returns;
  when the queue is open it has been moved from and its destructor does nothing.
\<close>

definition addTask :: "bool \<Rightarrow> ('a, 'r, 'e) Task \<Rightarrow> ('a, 'r, 'e) Scheduler \<Rightarrow> ('r, 'e) shared_states \<Rightarrow> error + (('a, 'r, 'e) Scheduler \<times> ('r, 'e) shared_states \<times> effect list)" where
  "addTask NDEBUG task s st =
     (if queueActive s then
        Inr (s\<lparr>queue := queue s @ [task]\<rparr>, st, [notify_one Impl_variable])
      else (case Task_destructor NDEBUG task st of
              Inl e \<Rightarrow> Inl e
            | Inr st' \<Rightarrow> Inr (s, st', [])))"

text \<open>The template overload \<^verbatim>\<open>TaskQueue::addTask(Functor, Args...)\<close>; it returns the future.\<close>

definition addTask_functor :: "bool \<Rightarrow> ('a \<Rightarrow> ('r, 'e) invocation) \<Rightarrow> 'a \<Rightarrow> ('a, 'r, 'e) Scheduler \<Rightarrow> ('r, 'e) shared_states \<Rightarrow> error + (nat \<times> ('a, 'r, 'e) Scheduler \<times> ('r, 'e) shared_states \<times> effect list)" where
  "addTask_functor NDEBUG functor a s st =
     (let (task, fut, st1) = create functor a st in
      case addTask NDEBUG task s st1 of
        Inl e \<Rightarrow> Inl e
      | Inr (s', st', fx) \<Rightarrow> Inr (fut, s', st', fx))"

text \<open>The tasks of a discarded \<^verbatim>\<open>std::queue\<close> are destroyed front to back.\<close>

fun destroy_all :: "bool \<Rightarrow> ('a, 'r, 'e) Task list \<Rightarrow> ('r, 'e) shared_states \<Rightarrow> error + ('r, 'e) shared_states" where
  "destroy_all NDEBUG [] st = Inr st"
| "destroy_all NDEBUG (task # tasks) st =
     (case Task_destructor NDEBUG task st of
        Inl e \<Rightarrow> Inl e
      | Inr st' \<Rightarrow> destroy_all NDEBUG tasks st')"

text \<open>
  \<^verbatim>\<open>TaskQueue::cancel\<close>: the queue is swapped with an empty temporary, which dies at
  the end of the statement, before \<^verbatim>\<open>checkCompleted\<close> runs.
\<close>

definition TaskQueue_cancel :: "bool \<Rightarrow> ('a, 'r, 'e) Scheduler \<Rightarrow> ('r, 'e) shared_states \<Rightarrow> error + (('a, 'r, 'e) Scheduler \<times> ('r, 'e) shared_states \<times> effect list)" where
  "TaskQueue_cancel NDEBUG s st =
     (case destroy_all NDEBUG (queue s) st of
        Inl e \<Rightarrow> Inl e
      | Inr st' \<Rightarrow> (let (s', fx) = checkCompleted (s\<lparr>queue := []\<rparr>) in Inr (s', st', fx)))"

text \<open>\<^verbatim>\<open>TaskQueue::close\<close>; \<^verbatim>\<open>TaskQueue::~TaskQueue\<close> has the same body.\<close>

definition close :: "('a, 'r, 'e) Scheduler \<Rightarrow> ('a, 'r, 'e) Scheduler \<times> effect list" where
  "close s = checkCompleted (s\<lparr>queueActive := False\<rparr>)"

definition isClosed :: "('a, 'r, 'e) Scheduler \<Rightarrow> bool" where
  "isClosed s = (\<not> queueActive s)"

text \<open>
  \<^verbatim>\<open>startScheduledWork\<close> holds the mutex except while the task runs and while it is
  blocked on \<open>Impl_variable\<close>.  One pass through the loop is therefore two functions:
  \<open>startScheduledWork_head\<close>, from the top of the loop to the point where the mutex
  is given up (\<^verbatim>\<open>break\<close>, \<^verbatim>\<open>variable.wait\<close>, or the \<^verbatim>\<open>Unlock\<close> inside
  \<^verbatim>\<open>runNextTask\<close>), and \<open>startScheduledWork_tail\<close>, from the reacquisition after
  \<^verbatim>\<open>task()\<close> back to the top of the loop.  Between the two the task is invoked
  (\<open>Task_call\<close>) and other threads may change the scheduler.
\<close>

datatype 'task scheduled = Break | Wait_variable | Run 'task

text \<open>
  The first two statements of \<^verbatim>\<open>runNextTask\<close>: the front task is moved out and
  popped.  \<^verbatim>\<open>front()\<close> on an empty queue is undefined in C++; the only caller has
  checked \<open>workReady\<close>.
\<close>

definition runNextTask_begin :: "('a, 'r, 'e) Scheduler \<Rightarrow> ('a, 'r, 'e) Scheduler \<times> ('a, 'r, 'e) Task" where
  "runNextTask_begin s = (s\<lparr>queue := tl (queue s)\<rparr>, hd (queue s))"

definition startScheduledWork_head :: "(bool \<Rightarrow> bool) \<Rightarrow> ('a, 'r, 'e) Scheduler \<Rightarrow> ('a, 'r, 'e) Scheduler \<times> ('a, 'r, 'e) Task scheduled" where
  "startScheduledWork_head predicate s =
     (let workReady = (queue s \<noteq> []) in
      if isCompleted s \<or> \<not> predicate workReady then (s, Break)
      else if workReady then
        (let (s', task) = runNextTask_begin (s\<lparr>working := working s + 1\<rparr>) in (s', Run task))
      else (s, Wait_variable))"

text \<open>
  The rest of \<^verbatim>\<open>runNextTask\<close>: \<^verbatim>\<open>checkCompleted\<close>, then the local \<^verbatim>\<open>task\<close> goes out
  of scope.
\<close>

definition runNextTask_end :: "bool \<Rightarrow> ('a, 'r, 'e) Task \<Rightarrow> ('a, 'r, 'e) Scheduler \<Rightarrow> ('r, 'e) shared_states \<Rightarrow> error + (('a, 'r, 'e) Scheduler \<times> ('r, 'e) shared_states \<times> effect list)" where
  "runNextTask_end NDEBUG task s st =
     (let (s', fx) = checkCompleted s in
      case Task_destructor NDEBUG task st of
        Inl e \<Rightarrow> Inl e
      | Inr st' \<Rightarrow> Inr (s', st', fx))"

definition startScheduledWork_tail :: "bool \<Rightarrow> ('a, 'r, 'e) Task \<Rightarrow> ('a, 'r, 'e) Scheduler \<Rightarrow> ('r, 'e) shared_states \<Rightarrow> error + (('a, 'r, 'e) Scheduler \<times> ('r, 'e) shared_states \<times> effect list)" where
  "startScheduledWork_tail NDEBUG task s st =
     (case runNextTask_end NDEBUG task s st of
        Inl e \<Rightarrow> Inl e
      | Inr (s1, st', fx1) \<Rightarrow>
          (let (s2, fx2) = checkCompleted (s1\<lparr>working := working s1 - 1\<rparr>) in
           Inr (s2, st', fx1 @ fx2)))"


section \<open>A queue, its clients and its workers\<close>

text \<open>
  The threads around one \<^verbatim>\<open>TaskQueue\<close> interleave at the granularity of the
  scheduler's mutex.  The state of the whole is the scheduler and the store of
  promise slots, together with the tasks that workers have taken from the queue and
  not yet brought back to the mutex (\<open>running\<close>).  Two logs are kept for stating
  properties and are read by no operation: \<open>submitted\<close>, the tasks handed to
  \<^verbatim>\<open>addTask\<close> in call order, and \<open>launched\<close>, the tasks in the order in which
  \<^verbatim>\<open>task()\<close> was called on them.
\<close>

record ('a, 'r, 'e) system =
  sched :: "('a, 'r, 'e) Scheduler"
  slots :: "('r, 'e) shared_states"
  running :: "('a, 'r, 'e) Task list"
  submitted :: "('a, 'r, 'e) Task list"
  launched :: "('a, 'r, 'e) Task list"

definition system_init :: "('a, 'r, 'e) system" where
  "system_init = \<lparr>sched = Scheduler_init, slots = [], running = [], submitted = [], launched = []\<rparr>"

text \<open>A client calls \<^verbatim>\<open>queue.addTask(functor, args...)\<close>.\<close>

definition sys_addTask :: "bool \<Rightarrow> ('a \<Rightarrow> ('r, 'e) invocation) \<Rightarrow> 'a \<Rightarrow> ('a, 'r, 'e) system \<Rightarrow> error + ('a, 'r, 'e) system" where
  "sys_addTask NDEBUG functor a s =
     (case addTask_functor NDEBUG functor a (sched s) (slots s) of
        Inl e \<Rightarrow> Inl e
      | Inr (fut, sc, st, fx) \<Rightarrow>
          Inr (s\<lparr>sched := sc, slots := st,
                 submitted := submitted s @ [fst (create functor a (slots s))]\<rparr>))"

text \<open>A client calls \<^verbatim>\<open>queue.cancel()\<close>.\<close>

definition sys_cancel :: "bool \<Rightarrow> ('a, 'r, 'e) system \<Rightarrow> error + ('a, 'r, 'e) system" where
  "sys_cancel NDEBUG s =
     (case TaskQueue_cancel NDEBUG (sched s) (slots s) of
        Inl e \<Rightarrow> Inl e
      | Inr (sc, st, fx) \<Rightarrow> Inr (s\<lparr>sched := sc, slots := st\<rparr>))"

text \<open>A client calls \<^verbatim>\<open>queue.close()\<close>.\<close>

definition sys_close :: "('a, 'r, 'e) system \<Rightarrow> ('a, 'r, 'e) system" where
  "sys_close s = s\<lparr>sched := fst (close (sched s))\<rparr>"

text \<open>
  A worker inside \<^verbatim>\<open>startScheduledWork\<close> passes the top of the loop with the mutex
  held.  Only the case in which it takes a task changes the state.
\<close>

definition sys_take :: "(bool \<Rightarrow> bool) \<Rightarrow> ('a, 'r, 'e) system \<Rightarrow> ('a, 'r, 'e) system option" where
  "sys_take predicate s =
     (case startScheduledWork_head predicate (sched s) of
        (sc, Run task) \<Rightarrow> Some (s\<lparr>sched := sc, running := running s @ [task]\<rparr>)
      | _ \<Rightarrow> None)"

text \<open>
  The worker holding the \<open>i\<close>-th running task calls \<^verbatim>\<open>task()\<close>, takes the mutex
  again and goes back to the top of the loop.  The step relation below supplies
  \<open>i < length (running s)\<close>.
\<close>

definition sys_finish :: "bool \<Rightarrow> nat \<Rightarrow> ('a, 'r, 'e) system \<Rightarrow> error + ('a, 'r, 'e) system" where
  "sys_finish NDEBUG i s =
     (case Task_call NDEBUG (running s ! i) (slots s) of
        Inl e \<Rightarrow> Inl e
      | Inr (task', st1) \<Rightarrow>
          (case startScheduledWork_tail NDEBUG task' (sched s) st1 of
             Inl e \<Rightarrow> Inl e
           | Inr (sc, st2, fx) \<Rightarrow>
               Inr (s\<lparr>sched := sc, slots := st2,
                      running := take i (running s) @ drop (Suc i) (running s),
                      launched := launched s @ [running s ! i]\<rparr>)))"

text \<open>
  One step of a system with \<open>N\<close> worker threads.  A thread runs one task at a time,
  so a worker can take a task only while fewer than \<open>N\<close> are running.  A call that
  does not return ends the program and is no step; that the calls of the system do
  return in every reachable state is proved below (\<open>sys_addTask_open\<close>,
  \<open>sys_addTask_closed\<close>, \<open>sys_cancel_ok\<close>, \<open>sys_finish_ok\<close>).
\<close>

inductive step :: "nat \<Rightarrow> bool \<Rightarrow> ('a, 'r, 'e) system \<Rightarrow> ('a, 'r, 'e) system \<Rightarrow> bool"
  for N :: nat and NDEBUG :: bool where
  step_addTask: "sys_addTask NDEBUG functor a s = Inr s' \<Longrightarrow> step N NDEBUG s s'"
| step_cancel: "sys_cancel NDEBUG s = Inr s' \<Longrightarrow> step N NDEBUG s s'"
| step_close: "step N NDEBUG s (sys_close s)"
| step_take: "length (running s) < N \<Longrightarrow> sys_take predicate s = Some s' \<Longrightarrow> step N NDEBUG s s'"
| step_finish: "i < length (running s) \<Longrightarrow> sys_finish NDEBUG i s = Inr s' \<Longrightarrow> step N NDEBUG s s'"

definition reachable :: "nat \<Rightarrow> bool \<Rightarrow> ('a, 'r, 'e) system \<Rightarrow> bool" where
  "reachable N NDEBUG s = (step N NDEBUG)\<^sup>*\<^sup>* system_init s"


text \<open>
  What the scheduler's fields satisfy whenever its mutex is free: the completion flag
  mirrors the other three fields, and \<open>working\<close> counts the running tasks.
\<close>

definition sched_inv :: "nat \<Rightarrow> ('a, 'r, 'e) system \<Rightarrow> bool" where
  "sched_inv N s =
     ((completed (sched s) \<longleftrightarrow> \<not> queueActive (sched s) \<and> queue (sched s) = [] \<and> working (sched s) = 0)
      \<and> working (sched s) = of_nat (length (running s))
      \<and> length (running s) \<le> N)"

text \<open>A task that still waits to be run: it owns a packaged task that has not started.\<close>

definition pending :: "('a, 'r, 'e) Task \<Rightarrow> ('r, 'e) shared_states \<Rightarrow> bool" where
  "pending task st = (case task of None \<Rightarrow> False | Some t \<Rightarrow> task_valid t st \<and> \<not> started t)"

text \<open>
  The tasks in the queue and in the hands of workers are waiting tasks, and no two of
  them share a promise.
\<close>

definition tasks_inv :: "('a, 'r, 'e) system \<Rightarrow> bool" where
  "tasks_inv s =
     ((\<forall>task \<in> set (queue (sched s) @ running s). pending task (slots s))
      \<and> distinct (map (map_option promise) (queue (sched s) @ running s)))"


text \<open>
  The scheduler's loop in the words of the specification (section 4.3, steps 1 to 5),
  for comparison with \<open>startScheduledWork_head\<close> and \<open>startScheduledWork_tail\<close>:
  compute \<open>work_available\<close>; return if completed; return if the predicate refuses;
  if work is available increment \<open>working\<close> and pop the front task; otherwise block.
  After the task: decrement \<open>working\<close> and evaluate completion, which is latched.
\<close>

definition protocol_head :: "(bool \<Rightarrow> bool) \<Rightarrow> ('a, 'r, 'e) Scheduler \<Rightarrow> ('a, 'r, 'e) Scheduler \<times> ('a, 'r, 'e) Task scheduled" where
  "protocol_head predicate s =
     (let work_available = (queue s \<noteq> []) in
      if completed s then (s, Break)
      else if \<not> predicate work_available then (s, Break)
      else if work_available then
        (s\<lparr>working := working s + 1, queue := tl (queue s)\<rparr>, Run (hd (queue s)))
      else (s, Wait_variable))"

definition protocol_completion :: "('a, 'r, 'e) Scheduler \<Rightarrow> ('a, 'r, 'e) Scheduler" where
  "protocol_completion s =
     s\<lparr>completed := (completed s \<or> (\<not> queueActive s \<and> queue s = [] \<and> working s = 0))\<rparr>"

definition protocol_tail :: "('a, 'r, 'e) Scheduler \<Rightarrow> ('a, 'r, 'e) Scheduler" where
  "protocol_tail s = protocol_completion (s\<lparr>working := working s - 1\<rparr>)"

text \<open>
  Three concrete states of a queue with one task, used to instantiate the theorems:
  after \<^verbatim>\<open>addTask\<close> on a fresh queue, after a worker has taken the task, and after the
  worker has run it.
\<close>

definition example_task :: "(nat, nat, string) PackagedTask" where
  "example_task = \<lparr>promise = 0, function = returns, args = 7, started = False, ended = False\<rparr>"

definition one_pending :: "(nat, nat, string) system" where
  "one_pending =
     \<lparr>sched = \<lparr>completed = False, queue = [Some example_task], queueActive = True, working = 0\<rparr>,
      slots = [None], running = [], submitted = [Some example_task], launched = []\<rparr>"

definition one_running :: "(nat, nat, string) system" where
  "one_running =
     \<lparr>sched = \<lparr>completed = False, queue = [], queueActive = True, working = 1\<rparr>,
      slots = [None], running = [Some example_task], submitted = [Some example_task], launched = []\<rparr>"

definition one_done :: "(nat, nat, string) system" where
  "one_done =
     \<lparr>sched = \<lparr>completed = False, queue = [], queueActive = True, working = 0\<rparr>,
      slots = [Some (ReturnValue 7)], running = [], submitted = [Some example_task],
      launched = [Some example_task]\<rparr>"


text \<open>
  The order of the logs: what has been launched, what is running and what is queued,
  in this order, is what was submitted, with the cancelled tasks left out.  Each
  submitted task owns its own slot.
\<close>

definition has_slot :: "nat \<Rightarrow> ('a, 'r, 'e) Task \<Rightarrow> bool" where
  "has_slot n task = (case task of None \<Rightarrow> False | Some t \<Rightarrow> promise t < n)"

definition fifo_inv :: "('a, 'r, 'e) system \<Rightarrow> bool" where
  "fifo_inv s =
     (subseq (launched s @ running s @ queue (sched s)) (submitted s)
      \<and> distinct (map (map_option promise) (submitted s))
      \<and> list_all (has_slot (length (slots s))) (submitted s))"











section \<open>Facts about tasks\<close>

lemma create_valid:
  "create f a st = (Some t, fut, st') \<Longrightarrow> task_valid t st' \<and> \<not> started t \<and> fut = promise t \<and> getResult fut st' = None"
  by (auto simp: create_def task_valid_def getResult_def nth_append)


lemma launch_valid:
  assumes "task_valid t st" and "launch NDEBUG t st = Inr (t', st')"
  shows "task_valid t' st' \<and> started t'"
  using assms
  by (auto simp: launch_def task_valid_def set_value_def Let_def
      split: if_splits invocation.splits thrown.splits sum.splits)

lemma cancel_valid:
  assumes "task_valid t st" and "cancel t st = Inr (t', st')"
  shows "task_valid t' st' \<and> started t'"
  using assms
  by (auto simp: cancel_def task_valid_def set_value_def split: if_splits sum.splits)

lemma launch_pending:
  assumes "pending (Some t) st"
  shows "Task_call NDEBUG (Some t) st =
           Inr (Some (t\<lparr>started := True, ended := \<not> NDEBUG\<rparr>),
                st[promise t := Some (outcome_of (function t (args t)))])"
  using assms
  by (auto simp: pending_def Task_call_def launch_def task_valid_def set_value_def outcome_of_def Let_def
      split: invocation.splits thrown.splits sum.splits)

lemma cancel_pending:
  assumes "pending (Some t) st"
  shows "cancel t st = Inr (t\<lparr>started := True\<rparr>, st[promise t := Some Cancellation])"
  using assms by (auto simp: pending_def cancel_def task_valid_def set_value_def)

lemma cancel_started:
  assumes "started t"
  shows "cancel t st = Inr (t, st)"
  using assms by (simp add: cancel_def)

lemma Task_destructor_pending:
  assumes "pending (Some t) st"
  shows "Task_destructor NDEBUG (Some t) st = Inr (st[promise t := Some Cancellation])"
  using assms cancel_pending [OF assms]
  by (auto simp: Task_destructor_def assertInactive_def pending_def task_valid_def)

lemma Task_destructor_done:
  assumes "started t" and "NDEBUG \<or> ended t"
  shows "Task_destructor NDEBUG (Some t) st = Inr st"
  using assms by (auto simp: Task_destructor_def assertInactive_def cancel_def)

lemma pending_update_other:
  assumes "pending task st" and "map_option promise task \<noteq> Some p"
  shows "pending task (st[p := v])"
  using assms by (auto simp: pending_def task_valid_def split: option.splits)

lemma pending_append:
  assumes "pending task st"
  shows "pending task (st @ [x])"
  using assms by (auto simp: pending_def task_valid_def nth_append split: option.splits)

lemma pending_promise_less:
  assumes "pending task st"
  shows "\<exists>t. task = Some t \<and> promise t < length st \<and> st ! promise t = None"
  using assms by (auto simp: pending_def task_valid_def split: option.splits)

lemma destroy_all_pending:
  assumes "\<forall>task \<in> set tasks. pending task st"
    and "distinct (map (map_option promise) tasks)"
  shows "\<exists>st'. destroy_all NDEBUG tasks st = Inr st' \<and> length st' = length st
           \<and> (\<forall>t. Some t \<in> set tasks \<longrightarrow> st' ! promise t = Some Cancellation)
           \<and> (\<forall>p. (\<forall>t. Some t \<in> set tasks \<longrightarrow> promise t \<noteq> p) \<longrightarrow> st' ! p = st ! p)"
  using assms
proof (induction tasks arbitrary: st)
  case Nil
  then show ?case by simp
next
  case (Cons task tasks)
  from Cons.prems(1) obtain t where t: "task = Some t" and pt: "pending (Some t) st"
    and lt: "promise t < length st"
    using pending_promise_less [of task st] by auto
  let ?st1 = "st[promise t := Some Cancellation]"
  have d: "Task_destructor NDEBUG task st = Inr ?st1"
    using Task_destructor_pending [OF pt] t by simp
  have notin: "Some (promise t) \<notin> set (map (map_option promise) tasks)"
    using Cons.prems(2) t by simp
  have rest: "\<forall>task' \<in> set tasks. pending task' ?st1"
  proof
    fix task' assume m: "task' \<in> set tasks"
    then have "map_option promise task' \<noteq> Some (promise t)" using notin by force
    moreover have "pending task' st" using Cons.prems(1) m by simp
    ultimately show "pending task' ?st1" by (rule pending_update_other [rotated])
  qed
  have dist: "distinct (map (map_option promise) tasks)" using Cons.prems(2) by simp
  from Cons.IH [OF rest dist] obtain st' where
    r: "destroy_all NDEBUG tasks ?st1 = Inr st'" and len: "length st' = length ?st1"
    and c: "\<forall>u. Some u \<in> set tasks \<longrightarrow> st' ! promise u = Some Cancellation"
    and o: "\<forall>p. (\<forall>u. Some u \<in> set tasks \<longrightarrow> promise u \<noteq> p) \<longrightarrow> st' ! p = ?st1 ! p"
    by blast
  have tfree: "\<forall>u. Some u \<in> set tasks \<longrightarrow> promise u \<noteq> promise t"
    using notin by force
  have here: "st' ! promise t = Some Cancellation"
    using o tfree lt by simp
  have "destroy_all NDEBUG (task # tasks) st = Inr st'" using d r by simp
  moreover have "length st' = length st" using len by simp
  moreover have "\<forall>u. Some u \<in> set (task # tasks) \<longrightarrow> st' ! promise u = Some Cancellation"
    using c here t by auto
  moreover have "\<forall>p. (\<forall>u. Some u \<in> set (task # tasks) \<longrightarrow> promise u \<noteq> p) \<longrightarrow> st' ! p = st ! p"
    using o t by auto
  ultimately show ?case by blast
qed


section \<open>The scheduler's invariant\<close>

lemma working_zero_iff:
  assumes "n < 2 ^ 32"
  shows "(of_nat n = (0 :: 32 word)) \<longleftrightarrow> n = 0"
  using assms of_nat_neq_0 [where 'a = 32, of n] by auto

lemma sched_inv_init: "sched_inv N system_init"
  by (simp add: sched_inv_def system_init_def Scheduler_init_def)

lemma sched_inv_addTask:
  assumes "sched_inv N s" and "sys_addTask NDEBUG functor a s = Inr s'"
  shows "sched_inv N s'"
  using assms
  by (auto simp: sched_inv_def sys_addTask_def addTask_functor_def addTask_def create_def
      split: sum.splits if_splits prod.splits)

lemma sched_inv_cancel:
  assumes "sched_inv N s" and "sys_cancel NDEBUG s = Inr s'"
  shows "sched_inv N s'"
  using assms
  by (auto simp: sched_inv_def sys_cancel_def TaskQueue_cancel_def checkCompleted_def setCompleted_def
      split: sum.splits if_splits prod.splits)

lemma sched_inv_close:
  assumes "sched_inv N s"
  shows "sched_inv N (sys_close s)"
  using assms
  by (auto simp: sched_inv_def sys_close_def close_def checkCompleted_def setCompleted_def
      split: sum.splits if_splits prod.splits)

lemma sched_inv_take:
  assumes "N < 2 ^ 32" and "sched_inv N s" and "length (running s) < N" and "sys_take predicate s = Some s'"
  shows "sched_inv N s'"
proof -
  from assms(4) obtain sc task where
    h: "startScheduledWork_head predicate (sched s) = (sc, Run task)"
    and s': "s' = s\<lparr>sched := sc, running := running s @ [task]\<rparr>"
    by (auto simp: sys_take_def split: prod.splits scheduled.splits)
  from h have nc: "\<not> completed (sched s)" and ne: "queue (sched s) \<noteq> []"
    and sc: "sc = (sched s)\<lparr>working := working (sched s) + 1, queue := tl (queue (sched s))\<rparr>"
    by (auto simp: startScheduledWork_head_def runNextTask_begin_def isCompleted_def Let_def
        split: if_splits)
  have "Suc (length (running s)) < 2 ^ 32" using assms(1,3) by simp
  then have "(of_nat (Suc (length (running s))) :: 32 word) \<noteq> 0"
    using working_zero_iff by blast
  then have nz: "(of_nat (length (running s)) :: 32 word) + 1 \<noteq> 0"
    by (simp add: add.commute)
  show ?thesis
    using assms(2,3) nc nz by (simp add: sched_inv_def s' sc)
qed

lemma sched_inv_finish:
  assumes "N < 2 ^ 32" and "sched_inv N s" and "i < length (running s)" and "sys_finish NDEBUG i s = Inr s'"
  shows "sched_inv N s'"
proof -
  from assms(4) obtain task' st1 sc st2 fx where
    t: "startScheduledWork_tail NDEBUG task' (sched s) st1 = Inr (sc, st2, fx)"
    and r: "running s' = take i (running s) @ drop (Suc i) (running s)"
    and s': "sched s' = sc"
    by (auto simp: sys_finish_def split: sum.splits prod.splits)
  have len: "length (running s) < 2 ^ 32" using assms(1,2) by (simp add: sched_inv_def)
  have pos: "length (running s) \<noteq> 0" using assms(3) by auto
  have nz: "working (sched s) \<noteq> 0"
    using assms(2) len pos working_zero_iff by (auto simp: sched_inv_def)
  then have nc: "\<not> completed (sched s)" using assms(2) by (simp add: sched_inv_def)
  from t nz have sc: "sc = fst (checkCompleted ((sched s)\<lparr>working := working (sched s) - 1\<rparr>))"
    by (auto simp: startScheduledWork_tail_def runNextTask_end_def checkCompleted_def
        split: sum.splits prod.splits if_splits)
  have l': "length (running s') = length (running s) - 1"
    using assms(3) by (simp add: r)
  have "Suc (length (running s) - 1) = length (running s)" using pos by simp
  then have w': "working (sched s) - 1 = of_nat (length (running s) - 1)"
    using assms(2) by (metis sched_inv_def add_diff_cancel_right' of_nat_Suc add.commute)
  show ?thesis
    using assms(2) nc w' l'
    by (auto simp: sched_inv_def s' sc checkCompleted_def setCompleted_def)
qed

lemma sched_inv_step:
  assumes "N < 2 ^ 32" and "sched_inv N s" and "step N NDEBUG s s'"
  shows "sched_inv N s'"
  using assms(3,1,2)
  by (cases rule: step.cases)
     (auto intro: sched_inv_addTask sched_inv_cancel sched_inv_close sched_inv_take sched_inv_finish)

lemma sched_inv_reachable:
  assumes "N < 2 ^ 32" and "reachable N NDEBUG s"
  shows "sched_inv N s"
  using assms(2) unfolding reachable_def
  by (induction rule: rtranclp_induct) (auto intro: sched_inv_init sched_inv_step [OF assms(1)])


section \<open>Queued and running tasks stay valid\<close>

lemma pending_same_slot:
  assumes "pending task st" and "length st' = length st"
    and "\<forall>t. task = Some t \<longrightarrow> st' ! promise t = st ! promise t"
  shows "pending task st'"
  using assms by (auto simp: pending_def task_valid_def split: option.splits)

lemma tasks_inv_init: "tasks_inv system_init"
  by (simp add: tasks_inv_def system_init_def Scheduler_init_def)

lemma sys_addTask_open:
  assumes "queueActive (sched s)"
  shows "sys_addTask NDEBUG functor a s =
           Inr (s\<lparr>sched := (sched s)\<lparr>queue := queue (sched s) @ [fst (create functor a (slots s))]\<rparr>,
                  slots := slots s @ [None],
                  submitted := submitted s @ [fst (create functor a (slots s))]\<rparr>)"
  using assms by (simp add: sys_addTask_def addTask_functor_def addTask_def create_def)

lemma sys_addTask_closed:
  assumes "\<not> queueActive (sched s)"
  shows "sys_addTask NDEBUG functor a s =
           Inr (s\<lparr>sched := sched s,
                  slots := slots s @ [Some Cancellation],
                  submitted := submitted s @ [fst (create functor a (slots s))]\<rparr>)"
proof -
  let ?t = "\<lparr>promise = length (slots s), function = functor, args = a, started = False, ended = False\<rparr>"
  have "pending (Some ?t) (slots s @ [None])"
    by (simp add: pending_def task_valid_def)
  from Task_destructor_pending [OF this, of NDEBUG]
  show ?thesis using assms
    by (simp add: sys_addTask_def addTask_functor_def addTask_def create_def)
qed

lemma tasks_inv_addTask:
  assumes "tasks_inv s" and "sys_addTask NDEBUG functor a s = Inr s'"
  shows "tasks_inv s'"
proof (cases "queueActive (sched s)")
  case True
  let ?new = "fst (create functor a (slots s))"
  have s': "s' = s\<lparr>sched := (sched s)\<lparr>queue := queue (sched s) @ [?new]\<rparr>,
                  slots := slots s @ [None],
                  submitted := submitted s @ [?new]\<rparr>"
    using assms(2) sys_addTask_open [OF True] by simp
  have new: "pending ?new (slots s @ [None])"
    by (simp add: create_def pending_def task_valid_def)
  have old: "\<forall>task \<in> set (queue (sched s) @ running s). pending task (slots s @ [None])"
    using assms(1) pending_append by (auto simp: tasks_inv_def)
  have "map_option promise task \<noteq> Some (length (slots s))"
    if "task \<in> set (queue (sched s) @ running s)" for task
  proof -
    have "pending task (slots s)" using assms(1) that by (simp add: tasks_inv_def)
    from pending_promise_less [OF this] show ?thesis by auto
  qed
  then have A: "Some (length (slots s)) \<notin> map_option promise ` set (queue (sched s) @ running s)"
    by (metis imageE)
  have B: "map_option promise ?new = Some (length (slots s))"
    by (simp add: create_def)
  have fresh: "map_option promise ?new \<notin> set (map (map_option promise) (queue (sched s) @ running s))"
    unfolding set_map B by (rule A)
  show ?thesis
    using assms(1) new old fresh by (auto simp: tasks_inv_def s')
next
  case False
  have s': "s' = s\<lparr>sched := sched s, slots := slots s @ [Some Cancellation],
                  submitted := submitted s @ [fst (create functor a (slots s))]\<rparr>"
    using assms(2) sys_addTask_closed [OF False] by simp
  have "\<forall>task \<in> set (queue (sched s) @ running s). pending task (slots s @ [Some Cancellation])"
    using assms(1) pending_append by (auto simp: tasks_inv_def)
  then show ?thesis using assms(1) by (auto simp: tasks_inv_def s')
qed

lemma sys_cancel_ok:
  assumes "tasks_inv s"
  shows "\<exists>st'. sys_cancel NDEBUG s
             = Inr (s\<lparr>sched := fst (checkCompleted ((sched s)\<lparr>queue := []\<rparr>)), slots := st'\<rparr>)
           \<and> destroy_all NDEBUG (queue (sched s)) (slots s) = Inr st'
           \<and> length st' = length (slots s)
           \<and> (\<forall>t. Some t \<in> set (queue (sched s)) \<longrightarrow> st' ! promise t = Some Cancellation)
           \<and> (\<forall>p. (\<forall>t. Some t \<in> set (queue (sched s)) \<longrightarrow> promise t \<noteq> p) \<longrightarrow> st' ! p = slots s ! p)"
proof -
  have "\<forall>task \<in> set (queue (sched s)). pending task (slots s)"
    and "distinct (map (map_option promise) (queue (sched s)))"
    using assms by (auto simp: tasks_inv_def)
  from destroy_all_pending [OF this, of NDEBUG] obtain st' where
    "destroy_all NDEBUG (queue (sched s)) (slots s) = Inr st'"
    "length st' = length (slots s)"
    "\<forall>t. Some t \<in> set (queue (sched s)) \<longrightarrow> st' ! promise t = Some Cancellation"
    "\<forall>p. (\<forall>t. Some t \<in> set (queue (sched s)) \<longrightarrow> promise t \<noteq> p) \<longrightarrow> st' ! p = slots s ! p"
    by blast
  then show ?thesis
    by (auto simp: sys_cancel_def TaskQueue_cancel_def split: prod.splits)
qed

lemma tasks_inv_cancel:
  assumes "tasks_inv s" and "sys_cancel NDEBUG s = Inr s'"
  shows "tasks_inv s'"
proof -
  from sys_cancel_ok [OF assms(1), of NDEBUG] assms(2) obtain st' where
    s': "s' = s\<lparr>sched := fst (checkCompleted ((sched s)\<lparr>queue := []\<rparr>)), slots := st'\<rparr>"
    and len: "length st' = length (slots s)"
    and o: "\<forall>p. (\<forall>t. Some t \<in> set (queue (sched s)) \<longrightarrow> promise t \<noteq> p) \<longrightarrow> st' ! p = slots s ! p"
    by auto
  have q: "queue (sched s') = []"
    by (simp add: s' checkCompleted_def setCompleted_def)
  have r: "running s' = running s" by (simp add: s')
  have "\<forall>task \<in> set (running s). pending task st'"
  proof
    fix task assume m: "task \<in> set (running s)"
    then have p: "pending task (slots s)" using assms(1) by (simp add: tasks_inv_def)
    have disj: "map_option promise ` set (queue (sched s)) \<inter> map_option promise ` set (running s) = {}"
      using assms(1) by (simp add: tasks_inv_def)
    have "promise u \<noteq> promise t" if "task = Some t" and "Some u \<in> set (queue (sched s))" for t u
    proof
      assume e: "promise u = promise t"
      have "map_option promise (Some u) \<in> map_option promise ` set (queue (sched s))"
        using that(2) by (rule imageI)
      moreover have "map_option promise (Some t) \<in> map_option promise ` set (running s)"
        using m that(1) by (metis imageI)
      ultimately show False using disj e by auto
    qed
    then have "\<forall>t. task = Some t \<longrightarrow> (\<forall>u. Some u \<in> set (queue (sched s)) \<longrightarrow> promise u \<noteq> promise t)"
      by blast
    then have "\<forall>t. task = Some t \<longrightarrow> st' ! promise t = slots s ! promise t"
      using o by blast
    with p len show "pending task st'" by (rule pending_same_slot)
  qed
  then show ?thesis using assms(1) q r by (simp add: tasks_inv_def s')
qed

lemma tasks_inv_close:
  assumes "tasks_inv s"
  shows "tasks_inv (sys_close s)"
  using assms
  by (auto simp: tasks_inv_def sys_close_def close_def checkCompleted_def setCompleted_def)

lemma sys_take_Some:
  assumes "sys_take predicate s = Some s'"
  shows "\<not> completed (sched s) \<and> predicate True \<and> queue (sched s) \<noteq> []
       \<and> s' = s\<lparr>sched := (sched s)\<lparr>working := working (sched s) + 1, queue := tl (queue (sched s))\<rparr>,
                running := running s @ [hd (queue (sched s))]\<rparr>"
  using assms
  by (auto simp: sys_take_def startScheduledWork_head_def runNextTask_begin_def isCompleted_def Let_def
      split: prod.splits scheduled.splits if_splits)

lemma tasks_inv_take:
  assumes "tasks_inv s" and "sys_take predicate s = Some s'"
  shows "tasks_inv s'"
proof -
  from sys_take_Some [OF assms(2)] obtain task rest where
    q: "queue (sched s) = task # rest"
    and s': "s' = s\<lparr>sched := (sched s)\<lparr>working := working (sched s) + 1, queue := rest\<rparr>,
                    running := running s @ [task]\<rparr>"
    by (cases "queue (sched s)") auto
  show ?thesis using assms(1) by (auto simp: tasks_inv_def s' q)
qed

lemma sys_finish_ok:
  assumes "tasks_inv s" and "i < length (running s)"
  shows "\<exists>t. running s ! i = Some t \<and> pending (Some t) (slots s)
           \<and> sys_finish NDEBUG i s =
               Inr (s\<lparr>sched := fst (checkCompleted
                        ((fst (checkCompleted (sched s)))\<lparr>working := working (fst (checkCompleted (sched s))) - 1\<rparr>)),
                      slots := (slots s)[promise t := Some (outcome_of (function t (args t)))],
                      running := take i (running s) @ drop (Suc i) (running s),
                      launched := launched s @ [running s ! i]\<rparr>)"
proof -
  have "pending (running s ! i) (slots s)"
    using assms by (simp add: tasks_inv_def)
  then obtain t where t: "running s ! i = Some t" and p: "pending (Some t) (slots s)"
    by (cases "running s ! i") (auto simp: pending_def)
  let ?t' = "t\<lparr>started := True, ended := \<not> NDEBUG\<rparr>"
  have d: "Task_destructor NDEBUG (Some ?t') st = Inr st" for st
    by (rule Task_destructor_done) auto
  show ?thesis
    using t p launch_pending [OF p, of NDEBUG] d
    by (simp add: sys_finish_def startScheduledWork_tail_def runNextTask_end_def split: prod.splits)
qed

lemma tasks_inv_finish:
  assumes "tasks_inv s" and "i < length (running s)" and "sys_finish NDEBUG i s = Inr s'"
  shows "tasks_inv s'"
proof -
  from sys_finish_ok [OF assms(1,2), of NDEBUG] assms(3) obtain t sc where
    t: "running s ! i = Some t"
    and s': "s' = s\<lparr>sched := sc,
                    slots := (slots s)[promise t := Some (outcome_of (function t (args t)))],
                    running := take i (running s) @ drop (Suc i) (running s),
                    launched := launched s @ [running s ! i]\<rparr>"
    and q: "queue sc = queue (sched s)"
    by (auto simp: checkCompleted_def setCompleted_def split: if_splits)
  have split: "running s = take i (running s) @ Some t # drop (Suc i) (running s)"
    using id_take_nth_drop [OF assms(2)] t by simp
  let ?rest = "queue (sched s) @ take i (running s) @ drop (Suc i) (running s)"
  have d: "distinct (map (map_option promise) (queue (sched s) @ take i (running s) @ Some t # drop (Suc i) (running s)))"
    using assms(1) split by (simp add: tasks_inv_def)
  then have d': "distinct (map (map_option promise) ?rest)" by auto
  have "Some (promise t) \<notin> map_option promise ` set ?rest"
    using d by auto
  then have nt: "\<forall>task \<in> set ?rest. map_option promise task \<noteq> Some (promise t)"
    by (metis imageI)
  have "set ?rest \<subseteq> set (queue (sched s) @ running s)"
    using set_take_subset [of i "running s"] set_drop_subset [of "Suc i" "running s"] by auto
  then have "\<forall>task \<in> set ?rest. pending task (slots s)"
    using assms(1) by (auto simp: tasks_inv_def)
  then have "\<forall>task \<in> set ?rest. pending task ((slots s)[promise t := Some (outcome_of (function t (args t)))])"
    using nt pending_update_other by blast
  then show ?thesis using d' by (simp add: tasks_inv_def s' q)
qed

lemma tasks_inv_step:
  assumes "tasks_inv s" and "step N NDEBUG s s'"
  shows "tasks_inv s'"
  using assms(2,1)
  by (cases rule: step.cases)
     (auto intro: tasks_inv_addTask tasks_inv_cancel tasks_inv_close tasks_inv_take tasks_inv_finish)

lemma tasks_inv_reachable:
  assumes "reachable N NDEBUG s"
  shows "tasks_inv s"
  using assms unfolding reachable_def
  by (induction rule: rtranclp_induct) (auto intro: tasks_inv_init tasks_inv_step)


section \<open>Completion is latched; a closed queue stays closed\<close>

lemma sched_inv_completed:
  assumes "N < 2 ^ 32" and "sched_inv N s" and "completed (sched s)"
  shows "running s = [] \<and> \<not> queueActive (sched s) \<and> queue (sched s) = [] \<and> working (sched s) = 0"
proof -
  have len: "length (running s) < 2 ^ 32" using assms(1,2) by (simp add: sched_inv_def)
  have z: "working (sched s) = 0" and w: "working (sched s) = of_nat (length (running s))"
    using assms(2,3) unfolding sched_inv_def by blast+
  from z w have "(of_nat (length (running s)) :: 32 word) = 0" by metis
  then have "running s = []" using working_zero_iff [OF len] by simp
  then show ?thesis using assms(2,3) by (simp add: sched_inv_def)
qed

lemma completed_latched_step:
  assumes "N < 2 ^ 32" and "sched_inv N s" and "completed (sched s)" and "step N NDEBUG s s'"
  shows "completed (sched s') \<and> launched s' = launched s \<and> running s' = []"
proof -
  have r: "running s = []" and closed: "\<not> queueActive (sched s)" and cond: "working (sched s) = 0"
    using sched_inv_completed [OF assms(1,2,3)] by simp_all
  from assms(4) show ?thesis
  proof (cases rule: step.cases)
    case (step_addTask f a)
    then show ?thesis using sys_addTask_closed [OF closed, of NDEBUG f a] assms(3) r by auto
  next
    case step_cancel
    then show ?thesis using assms(3) r closed cond
      by (auto simp: sys_cancel_def TaskQueue_cancel_def checkCompleted_def setCompleted_def
          split: sum.splits prod.splits if_splits)
  next
    case step_close
    then show ?thesis using assms(3) r
      by (auto simp: sys_close_def close_def checkCompleted_def setCompleted_def)
  next
    case (step_take predicate)
    then show ?thesis using sys_take_Some [of predicate s s'] assms(3) by simp
  next
    case (step_finish i)
    then show ?thesis using r by simp
  qed
qed

lemma completed_latched_steps:
  assumes "(step N NDEBUG)\<^sup>*\<^sup>* s s'" and "N < 2 ^ 32" and "sched_inv N s" and "completed (sched s)"
  shows "sched_inv N s' \<and> completed (sched s') \<and> launched s' = launched s \<and> running s' = []"
  using assms
proof (induction rule: rtranclp_induct)
  case base
  then show ?case using sched_inv_completed [of N s] by simp
next
  case (step y z)
  then have inv: "sched_inv N y" and c: "completed (sched y)" and l: "launched y = launched s"
    by simp_all
  from completed_latched_step [OF step.prems(1) inv c step.hyps(2)]
    sched_inv_step [OF step.prems(1) inv step.hyps(2)] l
  show ?case by simp
qed

lemma closed_step:
  assumes "\<not> queueActive (sched s)" and "step N NDEBUG s s'"
  shows "\<not> queueActive (sched s')"
  using assms(2)
proof (cases rule: step.cases)
  case (step_addTask f a)
  then show ?thesis using sys_addTask_closed [OF assms(1), of NDEBUG f a] assms(1) by auto
next
  case step_cancel
  then show ?thesis using assms(1)
    by (auto simp: sys_cancel_def TaskQueue_cancel_def checkCompleted_def setCompleted_def
        split: sum.splits prod.splits if_splits)
next
  case step_close
  then show ?thesis
    by (auto simp: sys_close_def close_def checkCompleted_def setCompleted_def)
next
  case (step_take predicate)
  then show ?thesis using sys_take_Some [of predicate s s'] assms(1) by auto
next
  case (step_finish i)
  then show ?thesis using assms(1)
    by (auto simp: sys_finish_def startScheduledWork_tail_def runNextTask_end_def
        checkCompleted_def setCompleted_def
        split: sum.splits prod.splits if_splits)
qed

lemma closed_steps:
  assumes "(step N NDEBUG)\<^sup>*\<^sup>* s s'" and "\<not> queueActive (sched s)"
  shows "\<not> queueActive (sched s')"
  using assms by (induction rule: rtranclp_induct) (auto dest: closed_step)

lemma closed_after_close: "\<not> queueActive (sched (sys_close s))"
  by (simp add: sys_close_def close_def checkCompleted_def setCompleted_def)


section \<open>Adding to and cancelling the queue\<close>

lemma addTask_open:
  assumes "queueActive sc"
  shows "addTask NDEBUG task sc st = Inr (sc\<lparr>queue := queue sc @ [task]\<rparr>, st, [notify_one Impl_variable])"
  using assms by (simp add: addTask_def)

lemma addTask_closed:
  assumes "\<not> queueActive sc" and "pending (Some t) st"
  shows "addTask NDEBUG (Some t) sc st = Inr (sc, st[promise t := Some Cancellation], [])"
  using assms Task_destructor_pending [OF assms(2), of NDEBUG] by (simp add: addTask_def)

lemma addTask_functor_closed:
  assumes "\<not> queueActive sc"
  shows "addTask_functor NDEBUG f a sc st = Inr (length st, sc, st @ [Some Cancellation], [])"
proof -
  let ?t = "\<lparr>promise = length st, function = f, args = a, started = False, ended = False\<rparr>"
  have "pending (Some ?t) (st @ [None])"
    by (simp add: pending_def task_valid_def)
  from addTask_closed [OF assms this, of NDEBUG]
  show ?thesis by (simp add: addTask_functor_def create_def)
qed

lemma TaskQueue_cancel_ok:
  assumes "tasks_inv s"
  shows "\<exists>st'. TaskQueue_cancel NDEBUG (sched s) (slots s)
             = Inr (fst (checkCompleted ((sched s)\<lparr>queue := []\<rparr>)), st',
                    snd (checkCompleted ((sched s)\<lparr>queue := []\<rparr>)))
           \<and> length st' = length (slots s)
           \<and> (\<forall>t. Some t \<in> set (queue (sched s)) \<longrightarrow> st' ! promise t = Some Cancellation)
           \<and> (\<forall>p. (\<forall>t. Some t \<in> set (queue (sched s)) \<longrightarrow> promise t \<noteq> p) \<longrightarrow> st' ! p = slots s ! p)"
proof -
  have "\<forall>task \<in> set (queue (sched s)). pending task (slots s)"
    and "distinct (map (map_option promise) (queue (sched s)))"
    using assms by (auto simp: tasks_inv_def)
  from destroy_all_pending [OF this, of NDEBUG] obtain st' where
    "destroy_all NDEBUG (queue (sched s)) (slots s) = Inr st'"
    "length st' = length (slots s)"
    "\<forall>t. Some t \<in> set (queue (sched s)) \<longrightarrow> st' ! promise t = Some Cancellation"
    "\<forall>p. (\<forall>t. Some t \<in> set (queue (sched s)) \<longrightarrow> promise t \<noteq> p) \<longrightarrow> st' ! p = slots s ! p"
    by blast
  then show ?thesis
    by (auto simp: TaskQueue_cancel_def split: prod.splits)
qed


section \<open>The example states are reachable\<close>

lemma one_pending_step: "step N NDEBUG system_init one_pending"
proof -
  have "sys_addTask NDEBUG returns 7 (system_init :: (nat, nat, string) system) = Inr one_pending"
    by (simp add: sys_addTask_def addTask_functor_def addTask_def create_def system_init_def
        Scheduler_init_def one_pending_def example_task_def)
  then show ?thesis by (rule step_addTask)
qed

lemma one_running_step: "0 < N \<Longrightarrow> step N NDEBUG one_pending one_running"
proof -
  assume n: "0 < N"
  have "sys_take (\<lambda>_. True) one_pending = Some one_running"
    by (simp add: sys_take_def startScheduledWork_head_def runNextTask_begin_def isCompleted_def
        one_pending_def one_running_def)
  moreover have "length (running one_pending) < N" using n by (simp add: one_pending_def)
  ultimately show ?thesis by (rule step_take [rotated])
qed

lemma one_done_step: "step N NDEBUG one_running one_done"
proof -
  have "sys_finish NDEBUG 0 one_running = Inr one_done"
    by (simp add: sys_finish_def Task_call_def launch_def set_value_def
        startScheduledWork_tail_def runNextTask_end_def checkCompleted_def Task_destructor_def
        assertInactive_def cancel_def one_running_def one_done_def example_task_def Let_def)
  moreover have "0 < length (running one_running)" by (simp add: one_running_def)
  ultimately show ?thesis by (rule step_finish [rotated])
qed

lemma one_pending_reachable: "reachable N NDEBUG one_pending"
  unfolding reachable_def by (rule r_into_rtranclp) (rule one_pending_step)

lemma one_running_reachable: "0 < N \<Longrightarrow> reachable N NDEBUG one_running"
  using one_pending_reachable [of N NDEBUG] one_running_step [of N NDEBUG]
  unfolding reachable_def by (rule rtranclp.rtrancl_into_rtrancl)

lemma one_done_reachable: "0 < N \<Longrightarrow> reachable N NDEBUG one_done"
  using one_running_reachable [of N NDEBUG] one_done_step [of N NDEBUG]
  unfolding reachable_def by (rule rtranclp.rtrancl_into_rtrancl)

lemma closed_pending_reachable: "reachable N NDEBUG (sys_close one_pending)"
  using one_pending_reachable [of N NDEBUG] step_close [of N NDEBUG one_pending]
  unfolding reachable_def by (rule rtranclp.rtrancl_into_rtrancl)


section \<open>The scheduler's loop against the specified protocol\<close>

lemma checkCompleted_protocol: "fst (checkCompleted x) = protocol_completion x"
  by (cases x) (auto simp: checkCompleted_def setCompleted_def protocol_completion_def)

lemma startScheduledWork_head_protocol:
  "startScheduledWork_head predicate sc = protocol_head predicate sc"
  by (simp add: startScheduledWork_head_def protocol_head_def runNextTask_begin_def isCompleted_def
      Let_def)

lemma startScheduledWork_tail_protocol:
  assumes "working sc \<noteq> 0" and "started t" and "NDEBUG \<or> ended t"
  shows "startScheduledWork_tail NDEBUG (Some t) sc st
           = Inr (protocol_tail sc, st, snd (checkCompleted (sc\<lparr>working := working sc - 1\<rparr>)))"
proof -
  have c: "checkCompleted sc = (sc, [])" using assms(1) by (simp add: checkCompleted_def)
  have d: "Task_destructor NDEBUG (Some t) st = Inr st"
    using assms(2,3) by (rule Task_destructor_done)
  obtain s2 fx where e: "checkCompleted (sc\<lparr>working := working sc - 1\<rparr>) = (s2, fx)"
    by (cases "checkCompleted (sc\<lparr>working := working sc - 1\<rparr>)")
  have s2: "s2 = protocol_tail sc"
    using checkCompleted_protocol [of "sc\<lparr>working := working sc - 1\<rparr>"] e
    by (simp add: protocol_tail_def)
  show ?thesis
    using c d by (simp add: startScheduledWork_tail_def runNextTask_end_def e s2)
qed


section \<open>Schedules of calls; order in a subsequence\<close>







section \<open>The order of the logs with one worker\<close>

lemma fifo_inv_init: "fifo_inv system_init"
  by (simp add: fifo_inv_def system_init_def Scheduler_init_def)

lemma has_slot_mono:
  assumes "list_all (has_slot n) tasks" and "n \<le> m"
  shows "list_all (has_slot m) tasks"
  using assms by (auto simp: list_all_iff has_slot_def split: option.splits)

lemma submitted_fresh:
  assumes "list_all (has_slot n) tasks"
  shows "Some n \<notin> set (map (map_option promise) tasks)"
proof
  assume "Some n \<in> set (map (map_option promise) tasks)"
  then have "Some n \<in> map_option promise ` set tasks" by simp
  then obtain task where m: "task \<in> set tasks" and e: "Some n = map_option promise task"
    by (rule imageE)
  from e obtain t where t: "task = Some t" and p: "promise t = n" by (cases task) auto
  have "has_slot n task" using assms m by (simp add: list_all_iff)
  then show False using t p by (simp add: has_slot_def)
qed

lemma checkCompleted_fields:
  "queue (fst (checkCompleted x)) = queue x"
  "queueActive (fst (checkCompleted x)) = queueActive x"
  "working (fst (checkCompleted x)) = working x"
  by (simp_all add: checkCompleted_def setCompleted_def)

lemma fifo_inv_addTask:
  assumes "fifo_inv s" and "sys_addTask NDEBUG f a s = Inr s'"
  shows "fifo_inv s'"
proof -
  let ?new = "fst (create f a (slots s))"
  have new: "?new = Some \<lparr>promise = length (slots s), function = f, args = a, started = False, ended = False\<rparr>"
    by (simp add: create_def)
  have sub: "subseq (launched s @ running s @ queue (sched s)) (submitted s)"
    and dist: "distinct (map (map_option promise) (submitted s))"
    and bound: "list_all (has_slot (length (slots s))) (submitted s)"
    using assms(1) by (simp_all add: fifo_inv_def)
  have fresh: "Some (length (slots s)) \<notin> set (map (map_option promise) (submitted s))"
    using bound by (rule submitted_fresh)
  have dist': "distinct (map (map_option promise) (submitted s @ [?new]))"
    using dist fresh by (simp add: new)
  have "list_all (has_slot (Suc (length (slots s)))) (submitted s)"
    using bound by (rule has_slot_mono) simp
  then have bound': "list_all (has_slot (Suc (length (slots s)))) (submitted s @ [?new])"
    by (simp add: new has_slot_def)
  show ?thesis
  proof (cases "queueActive (sched s)")
    case True
    have s': "s' = s\<lparr>sched := (sched s)\<lparr>queue := queue (sched s) @ [?new]\<rparr>,
                    slots := slots s @ [None],
                    submitted := submitted s @ [?new]\<rparr>"
      using assms(2) sys_addTask_open [OF True] by simp
    have "subseq ((launched s @ running s @ queue (sched s)) @ [?new]) (submitted s @ [?new])"
      using sub by (rule list_emb_append_mono) simp
    then have "subseq (launched s' @ running s' @ queue (sched s')) (submitted s')"
      by (simp add: s')
    moreover have "distinct (map (map_option promise) (submitted s'))"
      using dist' by (simp add: s')
    moreover have "list_all (has_slot (length (slots s'))) (submitted s')"
      using bound' by (simp add: s')
    ultimately show ?thesis unfolding fifo_inv_def by blast
  next
    case False
    have s': "s' = s\<lparr>sched := sched s, slots := slots s @ [Some Cancellation],
                    submitted := submitted s @ [?new]\<rparr>"
      using assms(2) sys_addTask_closed [OF False] by simp
    have "subseq (launched s @ running s @ queue (sched s)) (submitted s @ [?new])"
      using sub by (rule subseq_rev_drop_many)
    then have "subseq (launched s' @ running s' @ queue (sched s')) (submitted s')"
      by (simp add: s')
    moreover have "distinct (map (map_option promise) (submitted s'))"
      using dist' by (simp add: s')
    moreover have "list_all (has_slot (length (slots s'))) (submitted s')"
      using bound' by (simp add: s')
    ultimately show ?thesis unfolding fifo_inv_def by blast
  qed
qed

lemma fifo_inv_cancel:
  assumes "tasks_inv s" and "fifo_inv s" and "sys_cancel NDEBUG s = Inr s'"
  shows "fifo_inv s'"
proof -
  from sys_cancel_ok [OF assms(1), of NDEBUG] assms(3) obtain st' where
    s': "s' = s\<lparr>sched := fst (checkCompleted ((sched s)\<lparr>queue := []\<rparr>)), slots := st'\<rparr>"
    and len: "length st' = length (slots s)"
    by auto
  have q: "queue (sched s') = []"
    by (simp add: s' checkCompleted_fields)
  have "subseq (launched s @ running s) ((launched s @ running s) @ queue (sched s))"
    by (rule list_emb_prefix) simp
  moreover have "subseq ((launched s @ running s) @ queue (sched s)) (submitted s)"
    using assms(2) by (simp add: fifo_inv_def)
  ultimately have "subseq (launched s @ running s) (submitted s)"
    by (rule subseq_order.trans)
  then have "subseq (launched s' @ running s' @ queue (sched s')) (submitted s')"
    unfolding q by (simp add: s')
  moreover have "distinct (map (map_option promise) (submitted s'))"
    using assms(2) by (simp add: fifo_inv_def s')
  moreover have "list_all (has_slot (length (slots s'))) (submitted s')"
    using assms(2) len by (simp add: fifo_inv_def s')
  ultimately show ?thesis unfolding fifo_inv_def by blast
qed

lemma fifo_inv_close:
  assumes "fifo_inv s"
  shows "fifo_inv (sys_close s)"
  using assms
  by (auto simp: fifo_inv_def sys_close_def close_def checkCompleted_def setCompleted_def)

lemma fifo_inv_take:
  assumes "fifo_inv s" and "running s = []" and "sys_take predicate s = Some s'"
  shows "fifo_inv s'"
proof -
  from sys_take_Some [OF assms(3)] obtain task rest where
    q: "queue (sched s) = task # rest"
    and s': "s' = s\<lparr>sched := (sched s)\<lparr>working := working (sched s) + 1, queue := rest\<rparr>,
                    running := running s @ [task]\<rparr>"
    by (cases "queue (sched s)") auto
  have "subseq (launched s' @ running s' @ queue (sched s')) (submitted s')"
    using assms(1,2) by (simp add: fifo_inv_def s' q)
  moreover have "distinct (map (map_option promise) (submitted s'))"
    using assms(1) by (simp add: fifo_inv_def s')
  moreover have "list_all (has_slot (length (slots s'))) (submitted s')"
    using assms(1) by (simp add: fifo_inv_def s')
  ultimately show ?thesis unfolding fifo_inv_def by blast
qed

lemma fifo_inv_finish:
  assumes "tasks_inv s" and "fifo_inv s" and "length (running s) \<le> 1" and "i < length (running s)"
    and "sys_finish NDEBUG i s = Inr s'"
  shows "fifo_inv s'"
proof -
  from sys_finish_ok [OF assms(1,4), of NDEBUG] obtain t where
    t: "running s ! i = Some t"
    and e: "sys_finish NDEBUG i s = Inr (s\<lparr>sched := fst (checkCompleted
                        ((fst (checkCompleted (sched s)))\<lparr>working := working (fst (checkCompleted (sched s))) - 1\<rparr>)),
                    slots := (slots s)[promise t := Some (outcome_of (function t (args t)))],
                    running := take i (running s) @ drop (Suc i) (running s),
                    launched := launched s @ [Some t]\<rparr>)"
    by auto
  have s': "s' = s\<lparr>sched := fst (checkCompleted
                        ((fst (checkCompleted (sched s)))\<lparr>working := working (fst (checkCompleted (sched s))) - 1\<rparr>)),
                    slots := (slots s)[promise t := Some (outcome_of (function t (args t)))],
                    running := take i (running s) @ drop (Suc i) (running s),
                    launched := launched s @ [running s ! i]\<rparr>"
    using assms(5) e t by simp
  have q: "queue (sched s') = queue (sched s)"
    by (simp add: s' checkCompleted_fields)
  have i0: "i = 0" using assms(3,4) by simp
  obtain x where r: "running s = [x]"
    using assms(3,4) by (cases "running s") auto
  have "subseq (launched s' @ running s' @ queue (sched s')) (submitted s')"
    using assms(2) unfolding q by (simp add: fifo_inv_def s' i0 r)
  moreover have "distinct (map (map_option promise) (submitted s'))"
    using assms(2) by (simp add: fifo_inv_def s')
  moreover have "list_all (has_slot (length (slots s'))) (submitted s')"
    using assms(2) by (simp add: fifo_inv_def s')
  ultimately show ?thesis unfolding fifo_inv_def by blast
qed

lemma fifo_inv_step:
  assumes "tasks_inv s" and "sched_inv 1 s" and "fifo_inv s" and "step 1 NDEBUG s s'"
  shows "fifo_inv s'"
  using assms(4)
proof (cases rule: step.cases)
  case (step_addTask f a)
  with assms(3) show ?thesis by (rule fifo_inv_addTask)
next
  case step_cancel
  with assms(1,3) show ?thesis by (rule fifo_inv_cancel)
next
  case step_close
  then show ?thesis using fifo_inv_close [OF assms(3)] by simp
next
  case (step_take predicate)
  then have "running s = []" by simp
  with assms(3) show ?thesis using step_take(2) by (rule fifo_inv_take)
next
  case (step_finish i)
  have "length (running s) \<le> 1" using assms(2) by (simp add: sched_inv_def)
  with assms(1,3) show ?thesis using step_finish by (rule fifo_inv_finish)
qed

lemma fifo_inv_reachable:
  assumes "reachable 1 NDEBUG s"
  shows "tasks_inv s \<and> sched_inv 1 s \<and> fifo_inv s"
  using assms unfolding reachable_def
proof (induction rule: rtranclp_induct)
  case base
  show ?case by (simp add: tasks_inv_init sched_inv_init fifo_inv_init)
next
  case (step y z)
  have b: "(1 :: nat) < 2 ^ 32" by simp
  from step.IH step.hyps(2) show ?case
    using tasks_inv_step [of y 1 NDEBUG z] sched_inv_step [OF b, of y NDEBUG z]
      fifo_inv_step [of y NDEBUG z] by blast
qed


section \<open>Every submitted task is accounted for\<close>












section \<open>The worker's requested state\<close>

text \<open>
  Claim C1 (evaluation at the failing input).  The worker is asked to leave
  \<open>TERMINATE\<close>: its requested state is \<open>TERMINATE\<close> and \<^verbatim>\<open>requestState(WORK)\<close> is
  called.  The assertion of \<open>requestState\<close> holds there, so the call returns normally
  in a debug build as in a release build, and the requested state becomes \<open>WORK\<close>.
  The same assertion stops a debug build when \<open>TERMINATE\<close> is requested of a worker
  whose requested state is \<open>WORK\<close>.
\<close>

theorem requestState_leaves_TERMINATE:
  "requestState False WORK \<lparr>currentState = WORK, requestedState = TERMINATE\<rparr>
     = Inr (\<lparr>currentState = WORK, requestedState = WORK\<rparr>, [])
   \<and> requestState True WORK \<lparr>currentState = WORK, requestedState = TERMINATE\<rparr>
     = Inr (\<lparr>currentState = WORK, requestedState = WORK\<rparr>, [])
   \<and> requestState False TERMINATE \<lparr>currentState = WORK, requestedState = WORK\<rparr>
     = Inl AssertionFailed"
  by (simp add: requestState_def)

text \<open>
  Claim C2 as stated fails.  A worker whose requested state is \<open>WAIT\<close> is asked for
  \<open>WORK\<close>: the call notifies \<open>waitVariable\<close> and nothing else, so the notification
  that \<open>checkWaitingPredicates\<close> consists of is not among its effects.
\<close>

theorem requestState_no_scheduler_call:
  "requestedState \<lparr>currentState = WAIT, requestedState = WAIT\<rparr> = WAIT \<and> WORK \<noteq> WAIT
   \<and> requestState True WORK \<lparr>currentState = WAIT, requestedState = WAIT\<rparr>
       = Inr (\<lparr>currentState = WAIT, requestedState = WORK\<rparr>, [notify_all waitVariable])
   \<and> requestState False WORK \<lparr>currentState = WAIT, requestedState = WAIT\<rparr>
       = Inr (\<lparr>currentState = WAIT, requestedState = WORK\<rparr>, [notify_all waitVariable])
   \<and> \<not> set checkWaitingPredicates
         \<subseteq> set (snd (projr (requestState True WORK \<lparr>currentState = WAIT, requestedState = WAIT\<rparr>)))"
  by (simp add: requestState_def checkWaitingPredicates_def)

text \<open>
  Claim C2, amended.  A call of \<open>requestState\<close> that leaves \<open>WAIT\<close> (the requested
  state was \<open>WAIT\<close> and another state is requested), in a release build or with
  \<open>WORK\<close> requested, returns normally, stores the requested state, and its only
  effect on other threads is one \<open>notify_all\<close> on the worker's own condition
  variable; the scheduler is not called.
\<close>

theorem requestState_leaving_WAIT:
  assumes "requestedState w = WAIT" and "state \<noteq> WAIT" and "NDEBUG \<or> state = WORK"
  shows "requestState NDEBUG state w = Inr (w\<lparr>requestedState := state\<rparr>, [notify_all waitVariable])"
  using assms by (auto simp: requestState_def)

theorem requestState_leaving_WAIT_witness:
  "requestedState \<lparr>currentState = WAIT, requestedState = WAIT\<rparr> = WAIT \<and> TERMINATE \<noteq> WAIT \<and>
   requestState True TERMINATE \<lparr>currentState = WAIT, requestedState = WAIT\<rparr>
     = Inr (\<lparr>currentState = WAIT, requestedState = TERMINATE\<rparr>, [notify_all waitVariable])"
  using requestState_leaving_WAIT [of "\<lparr>currentState = WAIT, requestedState = WAIT\<rparr>" TERMINATE True]
  by simp

text \<open>
  Claim C10.  The predicate that \<open>runLoop\<close> passes to \<^verbatim>\<open>startScheduledWork\<close> gives the
  same answer for both values of its argument: it holds exactly when the requested
  state, read when the predicate is evaluated, is \<open>WORK\<close>.  Hence, at the top of the
  scheduler's loop, a worker whose requested state is \<open>WORK\<close> takes the front task
  whenever the scheduler is not completed and the queue is not empty, and a worker
  whose requested state is not \<open>WORK\<close> leaves whatever the queue holds.
\<close>

theorem runLoop_predicate_ignores_argument:
  "runLoop_predicate w True = runLoop_predicate w False
   \<and> (runLoop_predicate w workAvailable \<longleftrightarrow> requestedState w = WORK)
   \<and> (requestedState w = WORK \<and> \<not> completed s \<and> queue s \<noteq> [] \<longrightarrow>
        snd (startScheduledWork_head (runLoop_predicate w) s) = Run (hd (queue s)))
   \<and> (requestedState w \<noteq> WORK \<longrightarrow>
        startScheduledWork_head (runLoop_predicate w) s = (s, Break))"
  by (simp add: runLoop_predicate_def startScheduledWork_head_def runNextTask_begin_def
      isCompleted_def)

theorem runLoop_predicate_ignores_argument_witness:
  "runLoop_predicate SyncedWorker_init True = runLoop_predicate SyncedWorker_init False
   \<and> runLoop_predicate SyncedWorker_init False
   \<and> requestedState SyncedWorker_init = WORK
   \<and> snd (startScheduledWork_head (runLoop_predicate SyncedWorker_init) (sched one_pending))
       = Run (Some example_task)
   \<and> requestedState \<lparr>currentState = WORK, requestedState = WAIT\<rparr> \<noteq> WORK
   \<and> startScheduledWork_head (runLoop_predicate \<lparr>currentState = WORK, requestedState = WAIT\<rparr>)
         (sched one_pending)
       = (sched one_pending, Break)"
  using runLoop_predicate_ignores_argument [of SyncedWorker_init False "sched one_pending"]
    runLoop_predicate_ignores_argument
      [of "\<lparr>currentState = WORK, requestedState = WAIT\<rparr>" False "sched one_pending"]
  by (simp add: SyncedWorker_init_def one_pending_def)


section \<open>Launching and cancelling a task\<close>

text \<open>
  Claim C5.  A task that has not started and has not been moved from is launched.
  The call returns normally whatever the callable does, \<open>started\<close> is set, and the
  promise's slot, empty before, receives one outcome: the return value if the
  callable returns, the cancellation if it raises \<open>TaskCancellation\<close>, and the raised
  object otherwise.  \<open>Task_call\<close> is \<^verbatim>\<open>Task::operator()\<close>, \<open>launch\<close> the function it
  forwards to.
\<close>

theorem launch_publishes_one_outcome:
  assumes "task_valid t st" and "\<not> started t"
  shows "st ! promise t = None
       \<and> launch NDEBUG t st =
           Inr (t\<lparr>started := True, ended := \<not> NDEBUG\<rparr>,
                st[promise t := Some (case function t (args t) of
                                        returns v \<Rightarrow> ReturnValue v
                                      | throws TaskCancellation \<Rightarrow> Cancellation
                                      | throws x \<Rightarrow> Exception x)])
       \<and> Task_call NDEBUG (Some t) st =
           Inr (Some (t\<lparr>started := True, ended := \<not> NDEBUG\<rparr>),
                st[promise t := Some (case function t (args t) of
                                        returns v \<Rightarrow> ReturnValue v
                                      | throws TaskCancellation \<Rightarrow> Cancellation
                                      | throws x \<Rightarrow> Exception x)])"
  using assms
  by (auto simp: Task_call_def launch_def task_valid_def set_value_def Let_def
      split: invocation.splits thrown.splits sum.splits)

theorem launch_publishes_one_outcome_witness:
  "task_valid example_task [None] \<and> \<not> started example_task
   \<and> launch False example_task [None]
       = Inr (example_task\<lparr>started := True, ended := True\<rparr>, [Some (ReturnValue 7)])
   \<and> launch True (example_task\<lparr>function := (\<lambda>n. throws TaskCancellation)\<rparr>) [None]
       = Inr (example_task\<lparr>function := (\<lambda>n. throws TaskCancellation), started := True\<rparr>,
              [Some Cancellation])
   \<and> Task_call True (Some (example_task\<lparr>function := (\<lambda>n. throws (other ''boom''))\<rparr>)) [None]
       = Inr (Some (example_task\<lparr>function := (\<lambda>n. throws (other ''boom'')), started := True\<rparr>),
              [Some (Exception (other ''boom''))])"
proof -
  have v: "task_valid (example_task\<lparr>function := f\<rparr>) [None]"
    and n: "\<not> started (example_task\<lparr>function := f\<rparr>)" for f
    by (simp_all add: task_valid_def example_task_def)
  have v0: "task_valid example_task [None]" and n0: "\<not> started example_task"
    by (simp_all add: task_valid_def example_task_def)
  from launch_publishes_one_outcome [OF v0 n0, of False]
  have a: "launch False example_task [None]
       = Inr (example_task\<lparr>started := True, ended := True\<rparr>, [Some (ReturnValue 7)])"
    by (simp add: example_task_def)
  from launch_publishes_one_outcome
    [of "example_task\<lparr>function := (\<lambda>n. throws TaskCancellation)\<rparr>" "[None]" True] v n
  have b: "launch True (example_task\<lparr>function := (\<lambda>n. throws TaskCancellation)\<rparr>) [None]
       = Inr (example_task\<lparr>function := (\<lambda>n. throws TaskCancellation), started := True\<rparr>,
              [Some Cancellation])"
    by (simp add: example_task_def)
  from launch_publishes_one_outcome
    [of "example_task\<lparr>function := (\<lambda>n. throws (other ''boom''))\<rparr>" "[None]" True] v n
  have c: "Task_call True (Some (example_task\<lparr>function := (\<lambda>n. throws (other ''boom''))\<rparr>)) [None]
       = Inr (Some (example_task\<lparr>function := (\<lambda>n. throws (other ''boom'')), started := True\<rparr>),
              [Some (Exception (other ''boom''))])"
    by (simp add: example_task_def)
  show ?thesis using v0 n0 a b c by simp
qed

text \<open>
  Claim C6.  \<open>cancel\<close> on a task that has not started sets \<open>started\<close> and publishes
  the cancellation in the promise's slot; on a task that has started it changes
  neither the task nor the store.  Destroying a task that has not started leaves the
  cancellation in the slot, which is what the task's future then reads.
\<close>

theorem cancel_before_and_after_start:
  assumes "task_valid t st"
  shows "(\<not> started t \<longrightarrow> cancel t st = Inr (t\<lparr>started := True\<rparr>, st[promise t := Some Cancellation]))
       \<and> (started t \<longrightarrow> cancel t st = Inr (t, st))
       \<and> (\<not> started t \<longrightarrow>
            Task_destructor NDEBUG (Some t) st = Inr (st[promise t := Some Cancellation])
            \<and> getResult (promise t) (st[promise t := Some Cancellation]) = Some Cancellation)"
  using assms
  by (auto simp: cancel_def task_valid_def set_value_def Task_destructor_def assertInactive_def
      getResult_def)

theorem cancel_before_and_after_start_witness:
  "task_valid example_task [None] \<and> \<not> started example_task
   \<and> cancel example_task [None] = Inr (example_task\<lparr>started := True\<rparr>, [Some Cancellation])
   \<and> Task_destructor False (Some example_task) [None] = Inr [Some Cancellation]
   \<and> getResult 0 [Some (Cancellation :: (nat, string) TypedTaskResult)] = Some Cancellation
   \<and> task_valid (example_task\<lparr>started := True, ended := True\<rparr>) [Some (ReturnValue 7)]
   \<and> started (example_task\<lparr>started := True, ended := True\<rparr>)
   \<and> cancel (example_task\<lparr>started := True, ended := True\<rparr>) [Some (ReturnValue 7)]
       = Inr (example_task\<lparr>started := True, ended := True\<rparr>, [Some (ReturnValue 7)])"
proof -
  have v0: "task_valid example_task [None]" and n0: "\<not> started example_task"
    by (simp_all add: task_valid_def example_task_def)
  have v1: "task_valid (example_task\<lparr>started := True, ended := True\<rparr>) [Some (ReturnValue 7)]"
    and n1: "started (example_task\<lparr>started := True, ended := True\<rparr>)"
    by (simp_all add: task_valid_def example_task_def)
  from cancel_before_and_after_start [OF v0, of False] n0
  have a: "cancel example_task [None] = Inr (example_task\<lparr>started := True\<rparr>, [Some Cancellation])"
    and b: "Task_destructor False (Some example_task) [None] = Inr [Some Cancellation]"
    and c: "getResult 0 [Some (Cancellation :: (nat, string) TypedTaskResult)] = Some Cancellation"
    by (simp_all add: example_task_def)
  from cancel_before_and_after_start [OF v1, of False] n1
  have d: "cancel (example_task\<lparr>started := True, ended := True\<rparr>) [Some (ReturnValue 7)]
       = Inr (example_task\<lparr>started := True, ended := True\<rparr>, [Some (ReturnValue 7)])"
    by simp
  show ?thesis using v0 n0 a b c v1 n1 d by simp
qed


section \<open>The completion latch\<close>

text \<open>
  Claim C3.  In every state that a queue with fewer than \<open>2 ^ 32\<close> worker threads
  can reach, \<open>completed\<close> holds exactly when the queue is closed, no task is pending
  and the \<open>working\<close> counter is zero; the counter is the number of tasks being run.
  Once \<open>completed\<close> holds it holds in every later state, and in every later state
  no task is running and the log of launched tasks is what it was when the flag was
  set: no further task is executed.
\<close>

theorem completed_iff_and_latched:
  assumes "N < 2 ^ 32" and "reachable N NDEBUG s"
  shows "(completed (sched s) \<longleftrightarrow>
            \<not> queueActive (sched s) \<and> queue (sched s) = [] \<and> working (sched s) = 0)
       \<and> working (sched s) = of_nat (length (running s))
       \<and> (completed (sched s) \<longrightarrow>
            (\<forall>s'. (step N NDEBUG)\<^sup>*\<^sup>* s s' \<longrightarrow>
               completed (sched s') \<and> launched s' = launched s \<and> running s' = []))"
proof -
  have inv: "sched_inv N s" using assms by (rule sched_inv_reachable)
  then have "completed (sched s) \<longleftrightarrow>
            \<not> queueActive (sched s) \<and> queue (sched s) = [] \<and> working (sched s) = 0"
    and "working (sched s) = of_nat (length (running s))"
    by (simp_all add: sched_inv_def)
  moreover have "completed (sched s') \<and> launched s' = launched s \<and> running s' = []"
    if "completed (sched s)" and "(step N NDEBUG)\<^sup>*\<^sup>* s s'" for s'
    using completed_latched_steps [OF that(2) assms(1) inv that(1)] by simp
  ultimately show ?thesis by blast
qed

theorem completed_iff_and_latched_witness:
  "(1 :: nat) < 2 ^ 32
   \<and> reachable 1 True (sys_close (system_init :: (nat, nat, unit) system))
   \<and> completed (sched (sys_close (system_init :: (nat, nat, unit) system)))
   \<and> \<not> queueActive (sched (sys_close (system_init :: (nat, nat, unit) system)))
   \<and> queue (sched (sys_close (system_init :: (nat, nat, unit) system))) = []
   \<and> working (sched (sys_close (system_init :: (nat, nat, unit) system))) = 0
   \<and> completed (sched (sys_close (sys_close (system_init :: (nat, nat, unit) system))))
   \<and> launched (sys_close (sys_close (system_init :: (nat, nat, unit) system))) = []"
proof -
  let ?s = "sys_close (system_init :: (nat, nat, unit) system)"
  have b: "(1 :: nat) < 2 ^ 32" by simp
  have r: "reachable 1 True ?s"
    unfolding reachable_def by (rule r_into_rtranclp) (rule step_close)
  have l: "(step 1 True)\<^sup>*\<^sup>* ?s (sys_close ?s)"
    by (rule r_into_rtranclp) (rule step_close)
  have c: "completed (sched ?s)" and e: "launched ?s = []"
    by (simp_all add: sys_close_def close_def checkCompleted_def setCompleted_def system_init_def
        Scheduler_init_def)
  from completed_iff_and_latched [OF b r] c l e b r show ?thesis by auto
qed


section \<open>The scheduler's loop\<close>

text \<open>
  Claim C4.  In every reachable state the top of the loop of \<^verbatim>\<open>startScheduledWork\<close>
  does what the protocol prescribes: it returns if the scheduler is completed or the
  predicate, given whether the queue is non-empty, refuses; it increments \<open>working\<close>
  and pops the front task if there is one; otherwise it blocks.  For every task in
  the hands of a worker, invoking it with the mutex released returns normally and
  publishes its outcome, and the part of the loop that follows the reacquisition
  leaves the scheduler as the protocol prescribes: \<open>working\<close> decremented, then
  completion evaluated.  The completion check that \<^verbatim>\<open>runNextTask\<close> makes before the
  decrement changes nothing, because \<open>working\<close> is not zero there.
\<close>

theorem startScheduledWork_follows_protocol:
  assumes "N < 2 ^ 32" and "reachable N NDEBUG s"
  shows "startScheduledWork_head predicate (sched s) = protocol_head predicate (sched s)
       \<and> (\<forall>i < length (running s). \<exists>t. running s ! i = Some t
            \<and> Task_call NDEBUG (Some t) (slots s)
                = Inr (Some (t\<lparr>started := True, ended := \<not> NDEBUG\<rparr>),
                       (slots s)[promise t := Some (outcome_of (function t (args t)))])
            \<and> startScheduledWork_tail NDEBUG (Some (t\<lparr>started := True, ended := \<not> NDEBUG\<rparr>)) (sched s) st
                = Inr (protocol_tail (sched s), st,
                       snd (checkCompleted ((sched s)\<lparr>working := working (sched s) - 1\<rparr>))))"
proof -
  have inv: "sched_inv N s" using assms by (rule sched_inv_reachable)
  have ti: "tasks_inv s" using assms(2) by (rule tasks_inv_reachable)
  have "\<exists>t. running s ! i = Some t
            \<and> Task_call NDEBUG (Some t) (slots s)
                = Inr (Some (t\<lparr>started := True, ended := \<not> NDEBUG\<rparr>),
                       (slots s)[promise t := Some (outcome_of (function t (args t)))])
            \<and> startScheduledWork_tail NDEBUG (Some (t\<lparr>started := True, ended := \<not> NDEBUG\<rparr>)) (sched s) st
                = Inr (protocol_tail (sched s), st,
                       snd (checkCompleted ((sched s)\<lparr>working := working (sched s) - 1\<rparr>)))"
    if i: "i < length (running s)" for i
  proof -
    have "pending (running s ! i) (slots s)" using ti i by (simp add: tasks_inv_def)
    then obtain t where t: "running s ! i = Some t" and p: "pending (Some t) (slots s)"
      by (cases "running s ! i") (auto simp: pending_def)
    have len: "length (running s) < 2 ^ 32" using assms(1) inv by (simp add: sched_inv_def)
    have w: "working (sched s) = of_nat (length (running s))"
      using inv unfolding sched_inv_def by blast
    have "length (running s) \<noteq> 0" using i by auto
    then have nz: "working (sched s) \<noteq> 0"
      using working_zero_iff [OF len] unfolding w by simp
    have "startScheduledWork_tail NDEBUG (Some (t\<lparr>started := True, ended := \<not> NDEBUG\<rparr>)) (sched s) st
                = Inr (protocol_tail (sched s), st,
                       snd (checkCompleted ((sched s)\<lparr>working := working (sched s) - 1\<rparr>)))"
      by (rule startScheduledWork_tail_protocol [OF nz]) auto
    then show ?thesis using t launch_pending [OF p, of NDEBUG] by blast
  qed
  then show ?thesis using startScheduledWork_head_protocol [of predicate "sched s"] by blast
qed

theorem startScheduledWork_follows_protocol_witness:
  "(1 :: nat) < 2 ^ 32 \<and> reachable 1 True one_running
   \<and> startScheduledWork_head (\<lambda>_. True) (sched one_pending)
       = (\<lparr>completed = False, queue = [], queueActive = True, working = 1\<rparr>, Run (Some example_task))
   \<and> protocol_head (\<lambda>_. True) (sched one_pending)
       = (\<lparr>completed = False, queue = [], queueActive = True, working = 1\<rparr>, Run (Some example_task))
   \<and> (0 :: nat) < length (running one_running)
   \<and> Task_call True (running one_running ! 0) (slots one_running)
       = Inr (Some (example_task\<lparr>started := True\<rparr>), [Some (ReturnValue 7)])
   \<and> startScheduledWork_tail True (Some (example_task\<lparr>started := True\<rparr>)) (sched one_running)
         [Some (ReturnValue 7)]
       = Inr (\<lparr>completed = False, queue = [], queueActive = True, working = 0\<rparr>,
              [Some (ReturnValue 7)], [])"
proof -
  have b: "(1 :: nat) < 2 ^ 32" by simp
  have r: "reachable 1 True one_running" by (rule one_running_reachable) simp
  have r0: "reachable 1 True one_pending" by (rule one_pending_reachable)
  have i: "(0 :: nat) < length (running one_running)" by (simp add: one_running_def)
  from startScheduledWork_follows_protocol [OF b r0, of "\<lambda>_. True"]
  have h: "startScheduledWork_head (\<lambda>_. True) (sched one_pending)
             = protocol_head (\<lambda>_. True) (sched one_pending)" by blast
  have ph: "protocol_head (\<lambda>_. True) (sched one_pending)
       = (\<lparr>completed = False, queue = [], queueActive = True, working = 1\<rparr>, Run (Some example_task))"
    by (simp add: protocol_head_def one_pending_def)
  from startScheduledWork_follows_protocol [OF b r, of "\<lambda>_. True" "[Some (ReturnValue 7)]"] i
  obtain t where t: "running one_running ! 0 = Some t"
    and c: "Task_call True (Some t) (slots one_running)
                = Inr (Some (t\<lparr>started := True, ended := \<not> True\<rparr>),
                       (slots one_running)[promise t := Some (outcome_of (function t (args t)))])"
    and e: "startScheduledWork_tail True (Some (t\<lparr>started := True, ended := \<not> True\<rparr>)) (sched one_running)
               [Some (ReturnValue 7)]
                = Inr (protocol_tail (sched one_running), [Some (ReturnValue 7)],
                       snd (checkCompleted ((sched one_running)\<lparr>working := working (sched one_running) - 1\<rparr>)))"
    by blast
  from t have te: "t = example_task" by (simp add: one_running_def)
  have pt: "protocol_tail (sched one_running)
              = \<lparr>completed = False, queue = [], queueActive = True, working = 0\<rparr>"
    by (simp add: protocol_tail_def protocol_completion_def one_running_def)
  have fx: "snd (checkCompleted ((sched one_running)\<lparr>working := working (sched one_running) - 1\<rparr>)) = []"
    by (simp add: checkCompleted_def one_running_def)
  from c have c': "Task_call True (running one_running ! 0) (slots one_running)
       = Inr (Some (example_task\<lparr>started := True\<rparr>), [Some (ReturnValue 7)])"
    unfolding te by (simp add: one_running_def example_task_def outcome_of_def)
  from e have e': "startScheduledWork_tail True (Some (example_task\<lparr>started := True\<rparr>)) (sched one_running)
         [Some (ReturnValue 7)]
       = Inr (\<lparr>completed = False, queue = [], queueActive = True, working = 0\<rparr>,
              [Some (ReturnValue 7)], [])"
    unfolding te pt fx by (simp add: example_task_def)
  show ?thesis using b r h ph i c' e' by simp
qed


section \<open>Submitting and cancelling\<close>

text \<open>
  Claim C7.  In every state that follows a \<^verbatim>\<open>close()\<close>, \<^verbatim>\<open>addTask\<close> leaves the
  scheduler as it is and signals nobody.  The task is dropped and its future reads
  the cancellation: for the overload that builds the task from a callable, and for
  the overload that takes a task, given one that has not started.  On an open queue
  \<^verbatim>\<open>addTask\<close> appends the task to the queue and notifies one waiter.
\<close>

theorem addTask_closed_drops_open_pushes:
  assumes "(step N NDEBUG)\<^sup>*\<^sup>* (sys_close s0) s"
  shows "addTask_functor NDEBUG f a (sched s) (slots s)
           = Inr (length (slots s), sched s, slots s @ [Some Cancellation], [])
       \<and> getResult (length (slots s)) (slots s @ [Some Cancellation]) = Some Cancellation
       \<and> (pending (Some t) (slots s) \<longrightarrow>
            addTask NDEBUG (Some t) (sched s) (slots s)
              = Inr (sched s, (slots s)[promise t := Some Cancellation], [])
            \<and> getResult (promise t) ((slots s)[promise t := Some Cancellation]) = Some Cancellation)
       \<and> (queueActive sc \<longrightarrow>
            addTask NDEBUG task sc st
              = Inr (sc\<lparr>queue := queue sc @ [task]\<rparr>, st, [notify_one Impl_variable]))"
proof -
  have c: "\<not> queueActive (sched s)"
    using closed_steps [OF assms closed_after_close] .
  have A: "addTask_functor NDEBUG f a (sched s) (slots s)
           = Inr (length (slots s), sched s, slots s @ [Some Cancellation], [])"
    by (rule addTask_functor_closed [OF c])
  have B: "getResult (length (slots s)) (slots s @ [Some Cancellation]) = Some Cancellation"
    by (simp add: getResult_def)
  have C: "addTask NDEBUG (Some t) (sched s) (slots s)
              = Inr (sched s, (slots s)[promise t := Some Cancellation], [])
            \<and> getResult (promise t) ((slots s)[promise t := Some Cancellation]) = Some Cancellation"
    if p: "pending (Some t) (slots s)"
    using addTask_closed [OF c p, of NDEBUG] p
    by (simp add: pending_def task_valid_def getResult_def)
  have D: "addTask NDEBUG task sc st
              = Inr (sc\<lparr>queue := queue sc @ [task]\<rparr>, st, [notify_one Impl_variable])"
    if "queueActive sc"
    using that by (rule addTask_open)
  show ?thesis using A B C D by blast
qed

theorem addTask_closed_drops_open_pushes_witness:
  "addTask_functor True returns 3 (sched (sys_close one_pending)) (slots (sys_close one_pending))
     = Inr (1, sched (sys_close one_pending), [None, Some Cancellation], [])
   \<and> getResult 1 [None, Some (Cancellation :: (nat, string) TypedTaskResult)] = Some Cancellation
   \<and> pending (Some example_task) (slots (sys_close one_pending))
   \<and> addTask True (Some example_task) (sched (sys_close one_pending)) (slots (sys_close one_pending))
     = Inr (sched (sys_close one_pending), [Some Cancellation], [])
   \<and> getResult 0 [Some (Cancellation :: (nat, string) TypedTaskResult)] = Some Cancellation
   \<and> queueActive (sched one_pending)
   \<and> addTask True (Some (example_task\<lparr>promise := 1\<rparr>)) (sched one_pending) [None, None]
     = Inr (\<lparr>completed = False, queue = [Some example_task, Some (example_task\<lparr>promise := 1\<rparr>)],
              queueActive = True, working = 0\<rparr>, [None, None], [notify_one Impl_variable])"
proof -
  let ?s = "sys_close one_pending"
  have st: "(step 1 True)\<^sup>*\<^sup>* (sys_close one_pending) ?s" by simp
  have sl: "slots ?s = [None]" by (simp add: sys_close_def one_pending_def)
  have p: "pending (Some example_task) (slots ?s)"
    by (simp add: sl pending_def task_valid_def example_task_def)
  have q: "queueActive (sched one_pending)" by (simp add: one_pending_def)
  note inst = addTask_closed_drops_open_pushes
    [OF st, of returns 3 example_task "sched one_pending" "Some (example_task\<lparr>promise := 1\<rparr>)" "[None, None]"]
  from inst have A: "addTask_functor True returns 3 (sched ?s) (slots ?s)
           = Inr (length (slots ?s), sched ?s, slots ?s @ [Some Cancellation], [])"
    by blast
  from inst p have B: "addTask True (Some example_task) (sched ?s) (slots ?s)
              = Inr (sched ?s, (slots ?s)[promise example_task := Some Cancellation], [])"
    by blast
  from inst q have C: "addTask True (Some (example_task\<lparr>promise := 1\<rparr>)) (sched one_pending) [None, None]
              = Inr ((sched one_pending)\<lparr>queue := queue (sched one_pending) @ [Some (example_task\<lparr>promise := 1\<rparr>)]\<rparr>,
                     [None, None], [notify_one Impl_variable])"
    by blast
  have A': "addTask_functor True returns 3 (sched ?s) (slots ?s)
     = Inr (1, sched ?s, [None, Some Cancellation], [])"
    using A unfolding sl by simp
  have B': "addTask True (Some example_task) (sched ?s) (slots ?s)
     = Inr (sched ?s, [Some Cancellation], [])"
    using B unfolding sl by (simp add: example_task_def)
  have C': "addTask True (Some (example_task\<lparr>promise := 1\<rparr>)) (sched one_pending) [None, None]
     = Inr (\<lparr>completed = False, queue = [Some example_task, Some (example_task\<lparr>promise := 1\<rparr>)],
              queueActive = True, working = 0\<rparr>, [None, None], [notify_one Impl_variable])"
    using C by (simp add: one_pending_def)
  have G: "getResult 1 [None, Some (Cancellation :: (nat, string) TypedTaskResult)] = Some Cancellation"
    "getResult 0 [Some (Cancellation :: (nat, string) TypedTaskResult)] = Some Cancellation"
    by (simp_all add: getResult_def)
  show ?thesis using A' B' C' G p q by blast
qed

text \<open>
  Claim C8 as stated fails.  \<^verbatim>\<open>cancel()\<close> on an open queue that holds one task
  drops the task, whose future reads the cancellation, and notifies no condition
  variable: no waiter is woken.
\<close>

theorem cancel_open_queue_wakes_nobody:
  "reachable 1 True one_pending \<and> queueActive (sched one_pending)
   \<and> TaskQueue_cancel True (sched one_pending) (slots one_pending)
     = Inr (\<lparr>completed = False, queue = [], queueActive = True, working = 0\<rparr>, [Some Cancellation], [])"
  using one_pending_reachable [of 1 True]
  by (simp add: TaskQueue_cancel_def Task_destructor_def cancel_def set_value_def checkCompleted_def
      one_pending_def example_task_def)

text \<open>
  Claim C8, amended.  In every reachable state \<^verbatim>\<open>cancel()\<close> returns normally, empties
  the queue, leaves \<open>queueActive\<close> and \<open>working\<close> as they are, and fills the slot of
  every dropped task with the cancellation while leaving all other slots alone.  It
  re-evaluates completion: \<open>completed\<close> holds afterwards exactly when the queue is
  closed and no task is being run, so never on an open queue.  It wakes the waiters
  on both condition variables exactly in that case, and notifies nobody otherwise.
\<close>

theorem cancel_wakes_only_on_completion:
  assumes "N < 2 ^ 32" and "reachable N NDEBUG s"
  shows "\<exists>st'. TaskQueue_cancel NDEBUG (sched s) (slots s)
             = Inr ((sched s)\<lparr>queue := [],
                              completed := (\<not> queueActive (sched s) \<and> working (sched s) = 0)\<rparr>,
                    st',
                    if \<not> queueActive (sched s) \<and> working (sched s) = 0
                    then [notify_all Base_variable, notify_all Impl_variable] else [])
           \<and> length st' = length (slots s)
           \<and> (\<forall>t. Some t \<in> set (queue (sched s)) \<longrightarrow> getResult (promise t) st' = Some Cancellation)
           \<and> (\<forall>p. (\<forall>t. Some t \<in> set (queue (sched s)) \<longrightarrow> promise t \<noteq> p) \<longrightarrow> st' ! p = slots s ! p)"
proof -
  have inv: "sched_inv N s" using assms by (rule sched_inv_reachable)
  have ti: "tasks_inv s" using assms(2) by (rule tasks_inv_reachable)
  from TaskQueue_cancel_ok [OF ti, of NDEBUG] obtain st' where
    eq: "TaskQueue_cancel NDEBUG (sched s) (slots s)
             = Inr (fst (checkCompleted ((sched s)\<lparr>queue := []\<rparr>)), st',
                    snd (checkCompleted ((sched s)\<lparr>queue := []\<rparr>)))"
    and len: "length st' = length (slots s)"
    and c: "\<forall>t. Some t \<in> set (queue (sched s)) \<longrightarrow> st' ! promise t = Some Cancellation"
    and o: "\<forall>p. (\<forall>t. Some t \<in> set (queue (sched s)) \<longrightarrow> promise t \<noteq> p) \<longrightarrow> st' ! p = slots s ! p"
    by blast
  have imp: "completed (sched s) \<longrightarrow> \<not> queueActive (sched s) \<and> working (sched s) = 0"
    using inv unfolding sched_inv_def by blast
  have f: "fst (checkCompleted ((sched s)\<lparr>queue := []\<rparr>))
             = (sched s)\<lparr>queue := [], completed := (\<not> queueActive (sched s) \<and> working (sched s) = 0)\<rparr>"
    using imp by (auto simp: checkCompleted_def setCompleted_def)
  have g: "snd (checkCompleted ((sched s)\<lparr>queue := []\<rparr>))
             = (if \<not> queueActive (sched s) \<and> working (sched s) = 0
                then [notify_all Base_variable, notify_all Impl_variable] else [])"
    by (simp add: checkCompleted_def setCompleted_def checkWaitingPredicates_def)
  have lt: "promise t < length st'" if "Some t \<in> set (queue (sched s))" for t
  proof -
    have "pending (Some t) (slots s)" using ti that by (simp add: tasks_inv_def)
    then show ?thesis using len by (simp add: pending_def task_valid_def)
  qed
  have "\<forall>t. Some t \<in> set (queue (sched s)) \<longrightarrow> getResult (promise t) st' = Some Cancellation"
    using c lt by (simp add: getResult_def)
  then show ?thesis using eq len o unfolding f g by blast
qed

theorem cancel_wakes_only_on_completion_witness:
  "(1 :: nat) < 2 ^ 32 \<and> reachable 1 True (sys_close one_pending)
   \<and> TaskQueue_cancel True (sched (sys_close one_pending)) (slots (sys_close one_pending))
     = Inr (\<lparr>completed = True, queue = [], queueActive = False, working = 0\<rparr>,
            [Some Cancellation], [notify_all Base_variable, notify_all Impl_variable])"
proof -
  let ?s = "sys_close one_pending"
  have b: "(1 :: nat) < 2 ^ 32" by simp
  have r: "reachable 1 True ?s" by (rule closed_pending_reachable)
  have sc: "sched ?s = \<lparr>completed = False, queue = [Some example_task], queueActive = False, working = 0\<rparr>"
    and sl: "slots ?s = [None]"
    by (simp_all add: sys_close_def close_def checkCompleted_def one_pending_def)
  from cancel_wakes_only_on_completion [OF b r] obtain st' where
    eq: "TaskQueue_cancel True (sched ?s) (slots ?s)
             = Inr ((sched ?s)\<lparr>queue := [],
                              completed := (\<not> queueActive (sched ?s) \<and> working (sched ?s) = 0)\<rparr>,
                    st',
                    if \<not> queueActive (sched ?s) \<and> working (sched ?s) = 0
                    then [notify_all Base_variable, notify_all Impl_variable] else [])"
    and len: "length st' = length (slots ?s)"
    and c: "\<forall>t. Some t \<in> set (queue (sched ?s)) \<longrightarrow> getResult (promise t) st' = Some Cancellation"
    by blast
  from c have "getResult 0 st' = Some Cancellation"
    by (simp add: sc example_task_def)
  with len have "st' = [Some Cancellation]"
    by (cases st') (auto simp: sl getResult_def)
  with eq b r show ?thesis by (simp add: sc sl)
qed


section \<open>First in, first out\<close>



end
